theory Spec2Isabelle
  imports Main "HOL-Library.Word"
begin

section \<open>The file access module of VLC (modules/access/file.c)\<close>

text \<open>
  The module presents an ordered list of files as one stream. This theory embeds
  \<open>Open\<close>, \<open>Close\<close>, \<open>Read\<close>, \<open>Seek\<close>, \<open>Control\<close> and \<open>open_file\<close> of
  \<open>file.c\<close> as HOL functions, in the configuration with \<open>HAVE_SYS_STAT_H\<close> and without
  \<open>WIN32\<close> and \<open>UNDER_CE\<close>.

  Conventions of the embedding:
  \<^item> \<open>int64_t\<close> positions and sizes are \<open>int\<close>: the properties below are about
    positions between 0 and the logical size, where no operation of the code leaves the
    range of \<open>int64_t\<close>. \<open>unsigned i_nb_reads\<close> is a \<open>32 word\<close>, so that its wrap-around
    is the one of C; indices into the file tables are \<open>nat\<close>.
  \<^item> The operating system and the VLC core are not part of \<open>file.c\<close>. They are a
    parameter: a record \<open>'w os\<close> of functions over a world \<open>'w\<close>, one per primitive
    the code calls. Every primitive takes the world and returns the new one.
  \<^item> Assertions are compiled in. A failing \<open>assert\<close> and an access outside an array are
    values of type \<open>fault\<close>; a loop that may run forever returns \<open>None\<close>.
  \<^item> Memory allocation (\<open>calloc\<close>, \<open>strdup\<close>, \<open>asprintf\<close>) is taken to succeed.
\<close>

subsection \<open>Data\<close>

datatype errno = EINTR | EAGAIN | EIO | EBADF | EINVAL | EISDIR

datatype st_mode = S_IFREG | S_IFBLK | S_IFCHR | S_IFDIR | S_IFIFO | S_IFSOCK

record stat =
  st_mode :: st_mode
  st_size :: int

text \<open>The outcome of \<open>read(fd, p_buffer, i_len)\<close>: the bytes stored in the buffer
  (their number is the return value), or \<open>-1\<close> with \<open>errno\<close> set.\<close>

datatype read_ret = Bytes string | Errno errno

datatype log_event =
    Msg_Err string
  | Msg_Dbg string
  | Msg_Warn string
  | User_Fatal string

datatype fault = Assert_failed | Out_of_bounds

datatype vlc_error = VLC_ENOMEM | VLC_EGENERIC

text \<open>\<open>access_sys_t\<close> together with the fields of \<open>p_access->info\<close> that the module
  uses. \<open>info_i_update\<close> is the bit \<open>INPUT_UPDATE_SIZE\<close> of \<open>info.i_update\<close>.\<close>

record access =
  info_i_pos :: int
  info_i_size :: int
  info_b_eof :: bool
  info_i_update :: bool
  i_nb_reads :: "32 word"
  b_kfir :: bool
  filec :: nat
  filev :: "int list"
  sizev :: "int list"
  filep :: nat
  b_seekable :: bool
  b_pace_control :: bool

text \<open>The primitives that \<open>file.c\<close> calls. \<open>os_die\<close> reads \<open>p_access->b_die\<close>, which
  another thread sets: it is a function of the world, and every primitive may change it.\<close>

record 'w os =
  os_open :: "string \<Rightarrow> 'w \<Rightarrow> int \<times> 'w"
  os_dup :: "int \<Rightarrow> 'w \<Rightarrow> int \<times> 'w"
  os_close :: "int \<Rightarrow> 'w \<Rightarrow> 'w"
  os_fstat :: "int \<Rightarrow> 'w \<Rightarrow> stat option"
  os_read :: "int \<Rightarrow> int \<Rightarrow> 'w \<Rightarrow> read_ret \<times> 'w"
  os_poll :: "int \<Rightarrow> 'w \<Rightarrow> int \<times> 'w"
  os_lseek :: "int \<Rightarrow> int \<Rightarrow> 'w \<Rightarrow> 'w"
  os_msleep :: "'w \<Rightarrow> 'w"
  os_die :: "'w \<Rightarrow> bool"
  os_log :: "log_event \<Rightarrow> 'w \<Rightarrow> 'w"
  os_ToLocale :: "string \<Rightarrow> bool"

subsection \<open>Seek\<close>

text \<open>The loop of \<open>Seek\<close> that finds the file of a position:
  \<^verbatim>\<open>while (i_pos > p_sys->sizev[i]) { i_pos -= p_sys->sizev[i++]; assert (i < p_sys->filec); }\<close>
  It returns the index and the position inside that file.\<close>

function seek_loop :: "nat \<Rightarrow> int list \<Rightarrow> nat \<Rightarrow> int \<Rightarrow> fault + nat \<times> int" where
  "seek_loop fc szv i i_pos =
     (if length szv \<le> i then Inl Out_of_bounds
      else if i_pos > szv ! i then
        (if Suc i < fc then seek_loop fc szv (Suc i) (i_pos - szv ! i)
         else Inl Assert_failed)
      else Inr (i, i_pos))"
  by pat_completeness auto
termination
  by (relation "measure (\<lambda>(fc, szv, i, i_pos). fc - i)") auto

declare seek_loop.simps [simp del]

text \<open>The first statement of \<open>Seek\<close>: it compares the size with the position the
  stream has now, \<open>p_access->info.i_pos\<close>, and returns the position to go to.\<close>

definition seek_clamp :: "'w os \<Rightarrow> int \<Rightarrow> access \<Rightarrow> 'w \<Rightarrow> int \<times> 'w" where
  "seek_clamp os i_pos s w =
     (if info_i_size s < info_i_pos s then (info_i_size s, os_log os (Msg_Err ''seeking too far'') w)
      else if info_i_pos s < 0 then (0, os_log os (Msg_Err ''seeking too early'') w)
      else (i_pos, w))"

text \<open>\<open>Seek\<close> returns \<open>VLC_SUCCESS\<close> on every path that returns, so the result is the
  new state and the new world.\<close>

definition Seek :: "'w os \<Rightarrow> int \<Rightarrow> access \<Rightarrow> 'w \<Rightarrow> fault + access \<times> 'w" where
  "Seek os i_pos s w =
     (case seek_clamp os i_pos s w of (i_pos1, w1) \<Rightarrow>
        if \<not> 0 < filec s then Inl Assert_failed
        else (case seek_loop (filec s) (sizev s) 0 i_pos1 of
                Inl f \<Rightarrow> Inl f
              | Inr (i, off) \<Rightarrow>
                  if length (filev s) \<le> i then Inl Out_of_bounds
                  else Inr (s\<lparr>info_i_pos := i_pos1, info_b_eof := False, filep := i\<rparr>,
                            os_lseek os (filev s ! i) off w1)))"

subsection \<open>Read\<close>

text \<open>The wait of the polled strategy:
  \<^verbatim>\<open>do { if (p_access->b_die) return 0; ...; i_ret = poll (&ufd, 1, 500); } while (i_ret <= 0);\<close>
  The result is \<open>False\<close> when \<open>b_die\<close> was seen (\<open>Read\<close> returns 0 there) and \<open>True\<close>
  when \<open>poll\<close> returned a positive number. The loop need not end.\<close>

partial_function (option) poll_loop :: "'w os \<Rightarrow> int \<Rightarrow> 'w \<Rightarrow> (bool \<times> 'w) option" where
  "poll_loop os fd w =
     (if os_die os w then Some (False, w)
      else (case os_poll os fd w of (i_ret, w1) \<Rightarrow>
              if i_ret \<le> 0 then poll_loop os fd w1 else Some (True, w1)))"

declare poll_loop.simps [code]

text \<open>The value of \<open>i_ret\<close> for an outcome of \<open>read\<close>.\<close>

fun ret_of :: "read_ret \<Rightarrow> int" where
  "ret_of (Bytes bs) = int (length bs)"
| "ret_of (Errno e) = - 1"

fun bytes_of :: "read_ret \<Rightarrow> string" where
  "bytes_of (Bytes bs) = bs"
| "bytes_of (Errno e) = []"

text \<open>The loop of the \<open>kfir\<close> strategy:
  \<^verbatim>\<open>while (((i_ret = read (fd, p_buffer, i_len)) == 0) && !p_access->b_die) msleep (INPUT_ERROR_SLEEP);\<close>\<close>

partial_function (option) kfir_loop :: "'w os \<Rightarrow> int \<Rightarrow> int \<Rightarrow> 'w \<Rightarrow> (read_ret \<times> 'w) option" where
  "kfir_loop os fd i_len w =
     (case os_read os fd i_len w of (r, w1) \<Rightarrow>
        if ret_of r = 0 \<and> \<not> os_die os w1 then kfir_loop os fd i_len (os_msleep os w1)
        else Some (r, w1))"

declare kfir_loop.simps [code]

text \<open>Lines 311 to 347: the choice of the strategy. The result is \<open>None\<close> when a loop
  runs forever, \<open>Some (None, w)\<close> for the \<open>return 0\<close> of the polled strategy, and
  \<open>Some (Some r, w)\<close> when \<open>read\<close> has set \<open>i_ret\<close>.\<close>

definition read_strategy ::
  "'w os \<Rightarrow> access \<Rightarrow> int \<Rightarrow> int \<Rightarrow> 'w \<Rightarrow> (read_ret option \<times> 'w) option" where
  "read_strategy os s fd i_len w =
     (if \<not> b_pace_control s then
        (if \<not> b_kfir s then
           (case poll_loop os fd w of
              None \<Rightarrow> None
            | Some (False, w1) \<Rightarrow> Some (None, w1)
            | Some (True, w1) \<Rightarrow>
                (case os_read os fd i_len w1 of (r, w2) \<Rightarrow> Some (Some r, w2)))
         else
           (case kfir_loop os fd i_len w of
              None \<Rightarrow> None
            | Some (r, w1) \<Rightarrow> Some (Some r, w1)))
      else (case os_read os fd i_len w of (r, w1) \<Rightarrow> Some (Some r, w1)))"

text \<open>Lines 349 to 367: what \<open>Read\<close> does when \<open>i_ret < 0\<close>.\<close>

definition read_failed :: "'w os \<Rightarrow> read_ret \<Rightarrow> 'w \<Rightarrow> 'w" where
  "read_failed os r w =
     (case r of
        Bytes bs \<Rightarrow> w
      | Errno e \<Rightarrow>
          os_msleep os
            (if e = EINTR \<or> e = EAGAIN then w
             else os_log os (User_Fatal ''File reading failed'')
                    (os_log os (Msg_Err ''read failed'') w)))"

text \<open>Lines 372 to 385: the check of the size of the current file. \<open>nb\<close> stands for
  \<open>INPUT_FSTAT_NB_READS\<close>, a constant other than 0 which \<open>file.c\<close> does not define;
  \<open>i_nb_reads\<close> has been incremented before. \<open>sizev[i]\<close> is read only when \<open>fstat\<close>
  has succeeded.\<close>

definition size_check :: "'w os \<Rightarrow> 32 word \<Rightarrow> int \<Rightarrow> access \<Rightarrow> 'w \<Rightarrow> fault + access" where
  "size_check os nb fd s w =
     (if info_i_size s \<noteq> 0 \<and> i_nb_reads s mod nb = 0 then
        (case os_fstat os fd w of
           None \<Rightarrow> Inr s
         | Some st \<Rightarrow>
             if length (sizev s) \<le> filep s then Inl Out_of_bounds
             else if sizev s ! filep s \<noteq> st_size st then
               Inr (s\<lparr>info_i_size := info_i_size s + (st_size st - sizev s ! filep s),
                      sizev := (sizev s)[filep s := st_size st],
                      info_i_update := True\<rparr>)
             else Inr s)
      else Inr s)"

text \<open>One call of \<open>Read\<close> up to its recursive call: the result is either what \<open>Read\<close>
  returns (\<open>i_ret\<close>, the bytes stored in the buffer, the state and the world), or the state
  and the world that the recursive call of line 393 starts from.\<close>

datatype 'w read_step =
    Return int string access 'w
  | Next_file access 'w

definition Read_step ::
  "'w os \<Rightarrow> 32 word \<Rightarrow> int \<Rightarrow> access \<Rightarrow> 'w \<Rightarrow> (fault + 'w read_step) option" where
  "Read_step os nb i_len s w =
     (if length (filev s) \<le> filep s then Some (Inl Out_of_bounds)
      else
        (case read_strategy os s (filev s ! filep s) i_len w of
           None \<Rightarrow> None
         | Some (None, w1) \<Rightarrow> Some (Inr (Return 0 [] s w1))
         | Some (Some r, w1) \<Rightarrow>
             (let w2 = (if ret_of r < 0 then read_failed os r w1 else w1);
                  s1 = s\<lparr>i_nb_reads := i_nb_reads s + 1\<rparr>
              in case size_check os nb (filev s ! filep s) s1 w2 of
                   Inl f \<Rightarrow> Some (Inl f)
                 | Inr s2 \<Rightarrow>
                     if ret_of r = 0 \<and> Suc (filep s2) < filec s2
                     then Some (Inr (Next_file (s2\<lparr>filep := Suc (filep s2)\<rparr>) w2))
                     else if ret_of r > 0
                     then Some (Inr (Return (ret_of r) (bytes_of r)
                                  (s2\<lparr>info_i_pos := info_i_pos s2 + ret_of r\<rparr>) w2))
                     else if ret_of r = 0
                     then Some (Inr (Return 0 [] (s2\<lparr>info_b_eof := True\<rparr>) w2))
                     else Some (Inr (Return (ret_of r) [] s2 w2)))))"

text \<open>The state of an outcome of \<open>Read_step\<close>.\<close>

fun step_state :: "'w read_step \<Rightarrow> access" where
  "step_state (Return i_ret buf s w) = s"
| "step_state (Next_file s w) = s"

function Read ::
  "'w os \<Rightarrow> 32 word \<Rightarrow> int \<Rightarrow> access \<Rightarrow> 'w \<Rightarrow> (fault + int \<times> string \<times> access \<times> 'w) option" where
  "Read os nb i_len s w =
     (case Read_step os nb i_len s w of
        None \<Rightarrow> None
      | Some (Inl f) \<Rightarrow> Some (Inl f)
      | Some (Inr (Return i_ret buf s' w')) \<Rightarrow> Some (Inr (i_ret, buf, s', w'))
      | Some (Inr (Next_file s' w')) \<Rightarrow> Read os nb i_len s' w')"
  by pat_completeness auto
termination
  by (relation "measure (\<lambda>(os, nb, i_len, s, w). filec s - filep s)")
     (auto simp: Read_step_def size_check_def Let_def
       split: if_splits option.splits prod.splits sum.splits bool.splits)

declare Read.simps [simp del]

subsection \<open>Open, Close and Control\<close>

text \<open>\<open>strcasecmp (a, b) == 0\<close> on ASCII strings.\<close>

definition tolower :: "char \<Rightarrow> char" where
  "tolower c =
     (case map_of (zip ''ABCDEFGHIJKLMNOPQRSTUVWXYZ'' ''abcdefghijklmnopqrstuvwxyz'') c of
        None \<Rightarrow> c
      | Some l \<Rightarrow> l)"

definition strcasecmp_eq :: "string \<Rightarrow> string \<Rightarrow> bool" where
  "strcasecmp_eq a b = (map tolower a = map tolower b)"

definition expand_path :: "string \<Rightarrow> string \<Rightarrow> string" where
  "expand_path homedir path =
     (if take 2 path = ''~/'' then homedir @ ''/'' @ drop 2 path else path)"

text \<open>\<open>open_file\<close>: the descriptor, or \<open>-1\<close>.\<close>

definition open_file :: "'w os \<Rightarrow> string \<Rightarrow> string \<Rightarrow> 'w \<Rightarrow> int \<times> 'w" where
  "open_file os homedir psz_name w =
     (let path = expand_path homedir psz_name in
      if \<not> os_ToLocale os path
      then (- 1, os_log os (Msg_Err ''incorrect file name'') w)
      else (case os_open os path w of (fd, w1) \<Rightarrow>
              if fd = - 1
              then (- 1, os_log os (User_Fatal ''File reading failed'')
                           (os_log os (Msg_Err ''cannot open file'') w1))
              else (fd, w1)))"

text \<open>Lines 234 to 247, the loop \<open>while (fd != -1)\<close>: its body runs once at most. The
  result is \<open>None\<close> when \<open>fd\<close> is \<open>-1\<close> after the loop, and the \<open>stat\<close> read otherwise.\<close>

definition probe :: "'w os \<Rightarrow> int \<Rightarrow> 'w \<Rightarrow> stat option \<times> 'w" where
  "probe os fd w =
     (if fd = - 1 then (None, w)
      else (case os_fstat os fd w of
              None \<Rightarrow> (None, os_close os fd (os_log os (Msg_Err ''fstat'') w))
            | Some st \<Rightarrow>
                if st_mode st = S_IFDIR
                then (None, os_close os fd (os_log os (Msg_Dbg ''file is a directory, aborting'') w))
                else (Some st, w)))"

definition Close :: "'w os \<Rightarrow> access \<Rightarrow> 'w \<Rightarrow> 'w" where
  "Close os s w = fold (\<lambda>i. os_close os (filev s ! i)) [0..<filec s] w"

text \<open>Lines 178 to 183: the loop that counts the files of \<open>file-cat\<close>. It adds one to
  \<open>filec\<close> for every comma, and one more when \<open>strchr\<close> finds no comma.\<close>

fun count_files :: "string \<Rightarrow> nat \<Rightarrow> nat" where
  "count_files [] fc = Suc fc"
| "count_files (c # cs) fc = (if c = CHR '','' then count_files cs (Suc fc) else count_files cs fc)"

text \<open>Lines 263 to 266.\<close>

definition seekable_after :: "stat \<Rightarrow> bool \<Rightarrow> bool" where
  "seekable_after st b =
     (if st_mode st \<noteq> S_IFREG \<and> st_mode st \<noteq> S_IFBLK
         \<and> (st_mode st \<noteq> S_IFCHR \<or> st_size st = 0)
      then False else b)"

text \<open>Lines 207 to 229: the descriptor of file \<open>i\<close>, or \<open>-1\<close>. \<open>filename\<close> is the rest
  of \<open>file-cat\<close>; file \<open>i > 0\<close> is named by its part before the first comma.\<close>

definition open_nth :: "'w os \<Rightarrow> string \<Rightarrow> string \<Rightarrow> nat \<Rightarrow> string \<Rightarrow> 'w \<Rightarrow> int \<times> 'w" where
  "open_nth os homedir psz_path i filename w =
     (if i = 0
      then (let w0 = os_log os (Msg_Dbg ''opening file'') w in
            if psz_path = ''-'' then os_dup os 0 w0
            else open_file os homedir psz_path w0)
      else open_file os homedir (takeWhile (\<lambda>c. c \<noteq> CHR '','') filename)
             (os_log os (Msg_Dbg ''opening additionnal file'') w))"

text \<open>Lines 205 to 271: the loop that opens the files.\<close>

function open_loop ::
  "'w os \<Rightarrow> string \<Rightarrow> string \<Rightarrow> nat \<Rightarrow> string \<Rightarrow> access \<Rightarrow> 'w \<Rightarrow> (vlc_error + access) \<times> 'w" where
  "open_loop os homedir psz_path i filename s w =
     (if i < filec s then
        (case open_nth os homedir psz_path i filename w of
           (fd, w1) \<Rightarrow>
             (case probe os fd w1 of
                (None, w2) \<Rightarrow> (Inl VLC_EGENERIC, Close os (s\<lparr>filec := i\<rparr>) w2)
              | (Some st, w2) \<Rightarrow>
                  open_loop os homedir psz_path (Suc i)
                    (if i = 0 then filename else drop 1 (dropWhile (\<lambda>c. c \<noteq> CHR '','') filename))
                    (s\<lparr>filev := (filev s)[i := fd],
                       sizev := (sizev s)[i := st_size st],
                       info_i_size := info_i_size s + st_size st,
                       b_seekable := seekable_after st (b_seekable s)\<rparr>) w2))
      else (Inr s, w))"
  by pat_completeness auto
termination
  by (relation "measure (\<lambda>(os, homedir, psz_path, i, filename, s, w). filec s - i)") auto

declare open_loop.simps [simp del]

text \<open>The state after \<open>STANDARD_READ_ACCESS_INIT\<close> and lines 146 to 166. The macro is
  not in \<open>file.c\<close>: it allocates \<open>p_sys\<close> and clears \<open>p_access->info\<close>.\<close>

definition init_access :: "string \<Rightarrow> access" where
  "init_access psz_access =
     \<lparr>info_i_pos = 0, info_i_size = 0, info_b_eof = False, info_i_update = False,
      i_nb_reads = 0,
      b_kfir = (\<not> strcasecmp_eq psz_access ''stream'' \<and> strcasecmp_eq psz_access ''kfir''),
      filec = 1, filev = [], sizev = [], filep = 0,
      b_seekable = (\<not> strcasecmp_eq psz_access ''stream'' \<and> \<not> strcasecmp_eq psz_access ''kfir''),
      b_pace_control = (\<not> strcasecmp_eq psz_access ''stream'' \<and> \<not> strcasecmp_eq psz_access ''kfir'')\<rparr>"

text \<open>\<open>Open\<close>. \<open>catlist\<close> is the value of the variable \<open>file-cat\<close>, \<open>None\<close> when
  \<open>var_CreateGetString\<close> returns \<open>NULL\<close>.\<close>

definition Open ::
  "'w os \<Rightarrow> string \<Rightarrow> string \<Rightarrow> string \<Rightarrow> string option \<Rightarrow> 'w \<Rightarrow> (vlc_error + access) \<times> 'w" where
  "Open os homedir psz_access psz_path catlist w =
     (case catlist of
        None \<Rightarrow> (Inl VLC_ENOMEM, w)
      | Some cat \<Rightarrow>
          (let fc = (if cat \<noteq> [] then count_files cat 1 else 1);
               s = (init_access psz_access)\<lparr>filec := fc, filev := replicate fc 0,
                                            sizev := replicate fc 0\<rparr>
           in case open_loop os homedir psz_path 0 cat s w of
                (Inl e, w1) \<Rightarrow> (Inl e, w1)
              | (Inr s1, w1) \<Rightarrow>
                  if b_seekable s1 \<and> info_i_size s1 = 0
                  then (Inl VLC_EGENERIC,
                        Close os s1 (os_log os (Msg_Err ''file is empty, aborting'') w1))
                  else (Inr s1, w1)))"

datatype query =
    ACCESS_CAN_SEEK | ACCESS_CAN_FASTSEEK | ACCESS_CAN_PAUSE | ACCESS_CAN_CONTROL_PACE
  | ACCESS_GET_MTU | ACCESS_GET_PTS_DELAY | ACCESS_SET_PAUSE_STATE
  | ACCESS_GET_TITLE_INFO | ACCESS_SET_TITLE | ACCESS_SET_SEEKPOINT
  | ACCESS_SET_PRIVATE_ID_STATE | ACCESS_GET_META | ACCESS_OTHER int

datatype answer = Ans_bool bool | Ans_int int | Ans_int64 int | Ans_none

text \<open>\<open>Control\<close>: the value stored through the pointer argument, or \<open>VLC_EGENERIC\<close>.
  \<open>file_caching\<close> is the value of the variable \<open>file-caching\<close>.\<close>

definition Control ::
  "'w os \<Rightarrow> int \<Rightarrow> access \<Rightarrow> query \<Rightarrow> 'w \<Rightarrow> (vlc_error + answer) \<times> 'w" where
  "Control os file_caching s i_query w =
     (case i_query of
        ACCESS_CAN_SEEK \<Rightarrow> (Inr (Ans_bool (b_seekable s)), w)
      | ACCESS_CAN_FASTSEEK \<Rightarrow> (Inr (Ans_bool (b_seekable s)), w)
      | ACCESS_CAN_PAUSE \<Rightarrow> (Inr (Ans_bool (b_pace_control s)), w)
      | ACCESS_CAN_CONTROL_PACE \<Rightarrow> (Inr (Ans_bool (b_pace_control s)), w)
      | ACCESS_GET_MTU \<Rightarrow> (Inr (Ans_int 0), w)
      | ACCESS_GET_PTS_DELAY \<Rightarrow> (Inr (Ans_int64 (file_caching * 1000)), w)
      | ACCESS_SET_PAUSE_STATE \<Rightarrow> (Inr Ans_none, w)
      | ACCESS_GET_TITLE_INFO \<Rightarrow> (Inl VLC_EGENERIC, w)
      | ACCESS_SET_TITLE \<Rightarrow> (Inl VLC_EGENERIC, w)
      | ACCESS_SET_SEEKPOINT \<Rightarrow> (Inl VLC_EGENERIC, w)
      | ACCESS_SET_PRIVATE_ID_STATE \<Rightarrow> (Inl VLC_EGENERIC, w)
      | ACCESS_GET_META \<Rightarrow> (Inl VLC_EGENERIC, w)
      | ACCESS_OTHER n \<Rightarrow>
          (Inl VLC_EGENERIC, os_log os (Msg_Warn ''unimplemented query in control'') w))"

subsection \<open>A file system\<close>

text \<open>An instance of the primitives, for the claims that speak of the contents of files
  and of descriptors: files are named byte strings with a type, a descriptor is an entry of
  a table with its own offset, \<open>read\<close> returns the bytes from the offset on and moves it,
  \<open>lseek\<close> sets it. \<open>fs_nostat\<close> holds of the descriptors on which \<open>fstat\<close> fails.
  Errors of \<open>read\<close> on an open descriptor, and results of \<open>poll\<close> other than "ready",
  are obtained by replacing a field of \<open>posix\<close>.\<close>

record ofile =
  of_mode :: st_mode
  of_data :: string
  of_off :: int

record fsys =
  fs_nodes :: "string \<Rightarrow> (st_mode \<times> string) option"
  fs_fds :: "int \<Rightarrow> ofile option"
  fs_next :: int
  fs_nostat :: "int \<Rightarrow> bool"
  fs_log :: "log_event list"
  fs_sleeps :: nat
  fs_die :: bool

definition px_open :: "string \<Rightarrow> fsys \<Rightarrow> int \<times> fsys" where
  "px_open path w =
     (case fs_nodes w path of
        None \<Rightarrow> (- 1, w)
      | Some (m, d) \<Rightarrow>
          (fs_next w,
           w\<lparr>fs_fds := (fs_fds w)(fs_next w \<mapsto> \<lparr>of_mode = m, of_data = d, of_off = 0\<rparr>),
             fs_next := fs_next w + 1\<rparr>))"

definition px_dup :: "int \<Rightarrow> fsys \<Rightarrow> int \<times> fsys" where
  "px_dup fd w =
     (case fs_fds w fd of
        None \<Rightarrow> (- 1, w)
      | Some f \<Rightarrow> (fs_next w, w\<lparr>fs_fds := (fs_fds w)(fs_next w \<mapsto> f), fs_next := fs_next w + 1\<rparr>))"

definition px_close :: "int \<Rightarrow> fsys \<Rightarrow> fsys" where
  "px_close fd w = w\<lparr>fs_fds := (fs_fds w)(fd := None)\<rparr>"

definition px_fstat :: "int \<Rightarrow> fsys \<Rightarrow> stat option" where
  "px_fstat fd w =
     (case fs_fds w fd of
        None \<Rightarrow> None
      | Some f \<Rightarrow>
          if fs_nostat w fd then None
          else Some \<lparr>st_mode = of_mode f, st_size = int (length (of_data f))\<rparr>)"

definition px_read :: "int \<Rightarrow> int \<Rightarrow> fsys \<Rightarrow> read_ret \<times> fsys" where
  "px_read fd i_len w =
     (case fs_fds w fd of
        None \<Rightarrow> (Errno EBADF, w)
      | Some f \<Rightarrow>
          if of_mode f = S_IFDIR then (Errno EISDIR, w)
          else if i_len < 0 then (Errno EINVAL, w)
          else (let bs = take (nat i_len) (drop (nat (of_off f)) (of_data f))
                in (Bytes bs, w\<lparr>fs_fds := (fs_fds w)(fd \<mapsto> f\<lparr>of_off := of_off f + int (length bs)\<rparr>)\<rparr>)))"

definition px_lseek :: "int \<Rightarrow> int \<Rightarrow> fsys \<Rightarrow> fsys" where
  "px_lseek fd off w =
     (case fs_fds w fd of
        None \<Rightarrow> w
      | Some f \<Rightarrow>
          if off < 0 \<or> of_mode f = S_IFIFO \<or> of_mode f = S_IFSOCK then w
          else w\<lparr>fs_fds := (fs_fds w)(fd \<mapsto> f\<lparr>of_off := off\<rparr>)\<rparr>)"

definition posix :: "fsys os" where
  "posix =
     \<lparr>os_open = px_open, os_dup = px_dup, os_close = px_close, os_fstat = px_fstat,
      os_read = px_read, os_poll = (\<lambda>fd w. (1, w)), os_lseek = px_lseek,
      os_msleep = (\<lambda>w. w\<lparr>fs_sleeps := Suc (fs_sleeps w)\<rparr>),
      os_die = fs_die,
      os_log = (\<lambda>e w. w\<lparr>fs_log := fs_log w @ [e]\<rparr>),
      os_ToLocale = (\<lambda>path. True)\<rparr>"

subsection \<open>Example streams\<close>

text \<open>A disk with the files \<open>a\<close> = "abc" and \<open>b\<close> = "defgh", a directory \<open>d\<close> and an
  empty file \<open>e\<close>; nothing is open.\<close>

definition disk :: fsys where
  "disk =
     \<lparr>fs_nodes = [''a'' \<mapsto> (S_IFREG, ''abc''), ''b'' \<mapsto> (S_IFREG, ''defgh''),
                  ''d'' \<mapsto> (S_IFDIR, []), ''e'' \<mapsto> (S_IFREG, [])],
      fs_fds = Map.empty, fs_next = 3, fs_nostat = (\<lambda>fd. False), fs_log = [], fs_sleeps = 0,
      fs_die = False\<rparr>"

text \<open>The world and the state after \<open>Open\<close> of \<open>a\<close> with \<open>file-cat\<close> = \<open>b\<close>.\<close>

definition ab_world :: fsys where
  "ab_world =
     disk\<lparr>fs_fds := [3 \<mapsto> \<lparr>of_mode = S_IFREG, of_data = ''abc'', of_off = 0\<rparr>,
                      4 \<mapsto> \<lparr>of_mode = S_IFREG, of_data = ''defgh'', of_off = 0\<rparr>],
          fs_next := 5,
          fs_log := [Msg_Dbg ''opening file'', Msg_Dbg ''opening additionnal file'']\<rparr>"

definition ab_access :: access where
  "ab_access =
     \<lparr>info_i_pos = 0, info_i_size = 8, info_b_eof = False, info_i_update = False,
      i_nb_reads = 0, b_kfir = False, filec = 2, filev = [3, 4], sizev = [3, 5], filep = 0,
      b_seekable = True, b_pace_control = True\<rparr>"

text \<open>The same stream when both files have been read to their ends.\<close>

definition ab_end :: fsys where
  "ab_end =
     ab_world\<lparr>fs_fds := [3 \<mapsto> \<lparr>of_mode = S_IFREG, of_data = ''abc'', of_off = 3\<rparr>,
                          4 \<mapsto> \<lparr>of_mode = S_IFREG, of_data = ''defgh'', of_off = 5\<rparr>]\<rparr>"

text \<open>The file system in which every \<open>read\<close> fails with the error \<open>e\<close>.\<close>

definition failing :: "errno \<Rightarrow> fsys os" where
  "failing e = posix\<lparr>os_read := (\<lambda>fd i_len w. (Errno e, w))\<rparr>"

text \<open>A stream in the mode \<open>stream\<close> on a file that was empty when it was opened and
  holds five bytes now; nine calls of \<open>Read\<close> have been made.\<close>

definition grow_world :: fsys where
  "grow_world =
     disk\<lparr>fs_fds := [3 \<mapsto> \<lparr>of_mode = S_IFREG, of_data = ''hello'', of_off = 0\<rparr>], fs_next := 4\<rparr>"

definition grow_access :: access where
  "grow_access =
     \<lparr>info_i_pos = 0, info_i_size = 0, info_b_eof = False, info_i_update = False,
      i_nb_reads = 9, b_kfir = False, filec = 1, filev = [3], sizev = [0], filep = 0,
      b_seekable = False, b_pace_control = False\<rparr>"

text \<open>The stream of \<open>a\<close> and \<open>b\<close> after nine calls of \<open>Read\<close>, when \<open>a\<close> has grown
  to "abcXY" since it was opened.\<close>

definition ab_grown :: fsys where
  "ab_grown =
     ab_world\<lparr>fs_fds := [3 \<mapsto> \<lparr>of_mode = S_IFREG, of_data = ''abcXY'', of_off = 0\<rparr>,
                          4 \<mapsto> \<lparr>of_mode = S_IFREG, of_data = ''defgh'', of_off = 0\<rparr>]\<rparr>"

text \<open>The files \<open>a\<close> and \<open>b\<close> opened in the mode \<open>kfir\<close>, \<open>a\<close> read to its end,
  and \<open>b_die\<close> set.\<close>

definition kfir_access :: access where
  "kfir_access = ab_access\<lparr>b_kfir := True, b_seekable := False, b_pace_control := False\<rparr>"

definition ab_die :: fsys where
  "ab_die =
     ab_world\<lparr>fs_fds := [3 \<mapsto> \<lparr>of_mode = S_IFREG, of_data = ''abc'', of_off = 3\<rparr>,
                          4 \<mapsto> \<lparr>of_mode = S_IFREG, of_data = ''defgh'', of_off = 0\<rparr>],
              fs_die := True\<rparr>"

text \<open>The file system in which no descriptor becomes ready and \<open>b_die\<close> is set during
  the first wait, be it \<open>poll\<close> or \<open>msleep\<close>.\<close>

definition dying :: "fsys os" where
  "dying = posix\<lparr>os_poll := (\<lambda>fd w. (0, w\<lparr>fs_die := True\<rparr>)),
                  os_msleep := (\<lambda>w. w\<lparr>fs_sleeps := Suc (fs_sleeps w), fs_die := True\<rparr>)\<rparr>"

text \<open>The same stream when \<open>a\<close> has been read to its end and the descriptor of \<open>b\<close>
  stands at offset 2.\<close>

definition ab_stale :: fsys where
  "ab_stale =
     ab_world\<lparr>fs_fds := [3 \<mapsto> \<lparr>of_mode = S_IFREG, of_data = ''abc'', of_off = 3\<rparr>,
                          4 \<mapsto> \<lparr>of_mode = S_IFREG, of_data = ''defgh'', of_off = 2\<rparr>]\<rparr>"

text \<open>The same stream just opened, after \<open>Seek\<close> to 5: the descriptor of \<open>b\<close> stands
  at offset 2.\<close>

definition ab_seek5 :: fsys where
  "ab_seek5 =
     ab_world\<lparr>fs_fds := [3 \<mapsto> \<lparr>of_mode = S_IFREG, of_data = ''abc'', of_off = 0\<rparr>,
                          4 \<mapsto> \<lparr>of_mode = S_IFREG, of_data = ''defgh'', of_off = 2\<rparr>]\<rparr>"

text \<open>The bytes behind a descriptor, and the logical stream: the contents of the files of
  the set, one after the other.\<close>

definition fd_data :: "fsys \<Rightarrow> int \<Rightarrow> string" where
  "fd_data w fd = (case fs_fds w fd of None \<Rightarrow> [] | Some f \<Rightarrow> of_data f)"

definition stream_bytes :: "access \<Rightarrow> fsys \<Rightarrow> string" where
  "stream_bytes s w = concat (map (fd_data w) (filev s))"

text \<open>A seekable stream over a file system as \<open>Open\<close> leaves it: the tables have \<open>filec\<close>
  entries, the descriptors are distinct and open on files that can be positioned, the size
  table holds their sizes and the logical size is their sum.\<close>

definition file_ok :: "fsys \<Rightarrow> int \<Rightarrow> int \<Rightarrow> bool" where
  "file_ok w fd sz =
     (case fs_fds w fd of
        None \<Rightarrow> False
      | Some f \<Rightarrow> of_mode f \<noteq> S_IFDIR \<and> of_mode f \<noteq> S_IFIFO \<and> of_mode f \<noteq> S_IFSOCK
                  \<and> sz = int (length (of_data f)))"

definition stream_ok :: "access \<Rightarrow> fsys \<Rightarrow> bool" where
  "stream_ok s w =
     (length (filev s) = filec s \<and> length (sizev s) = filec s \<and> 1 \<le> filec s
      \<and> distinct (filev s) \<and> b_pace_control s \<and> info_i_size s = sum_list (sizev s)
      \<and> list_all2 (file_ok w) (filev s) (sizev s))"

text \<open>The notions in which the claims on \<open>Open\<close> are stated. No descriptor from
  \<open>fs_next\<close> on is open. The names that the loop of \<open>Open\<close> opens from iteration \<open>i\<close> on,
  \<open>k\<close> of them. What a name stands for: the file system entry of the expanded name, or
  descriptor 0 for the first name when it is \<open>-\<close>. Whether all the names can be opened,
  examined with \<open>fstat\<close> (their descriptors are \<open>k\<close>, \<open>k + 1\<close>, ...) and are no
  directories. The \<open>stat\<close> of each file, up to the first name that stands for nothing.\<close>

definition fds_fresh :: "fsys \<Rightarrow> bool" where
  "fds_fresh w = (0 \<le> fs_next w \<and> (\<forall>fd. fs_next w \<le> fd \<longrightarrow> fs_fds w fd = None))"

fun loop_names :: "string \<Rightarrow> nat \<Rightarrow> nat \<Rightarrow> string \<Rightarrow> string list" where
  "loop_names psz_path i 0 filename = []"
| "loop_names psz_path i (Suc k) filename =
     (if i = 0 then psz_path else takeWhile (\<lambda>c. c \<noteq> CHR '','') filename)
     # loop_names psz_path (Suc i) k
         (if i = 0 then filename else drop 1 (dropWhile (\<lambda>c. c \<noteq> CHR '','') filename))"

definition resolve :: "fsys \<Rightarrow> string \<Rightarrow> nat \<Rightarrow> string \<Rightarrow> (st_mode \<times> string) option" where
  "resolve w homedir i name =
     (if i = 0 \<and> name = ''-'' then map_option (\<lambda>f. (of_mode f, of_data f)) (fs_fds w 0)
      else fs_nodes w (expand_path homedir name))"

fun opens_ok :: "fsys \<Rightarrow> string \<Rightarrow> nat \<Rightarrow> int \<Rightarrow> string list \<Rightarrow> bool" where
  "opens_ok w homedir i k [] = True"
| "opens_ok w homedir i k (name # names) =
     (case resolve w homedir i name of
        None \<Rightarrow> False
      | Some (m, d) \<Rightarrow>
          \<not> fs_nostat w k \<and> m \<noteq> S_IFDIR \<and> opens_ok w homedir (Suc i) (k + 1) names)"

fun file_stats :: "fsys \<Rightarrow> string \<Rightarrow> nat \<Rightarrow> string list \<Rightarrow> stat list" where
  "file_stats w homedir i [] = []"
| "file_stats w homedir i (name # names) =
     (case resolve w homedir i name of
        None \<Rightarrow> []
      | Some (m, d) \<Rightarrow>
          \<lparr>st_mode = m, st_size = int (length d)\<rparr> # file_stats w homedir (Suc i) names)"

text \<open>A file that leaves the stream seekable, and the number of files \<open>Open\<close> counts.\<close>

definition kind_ok :: "stat \<Rightarrow> bool" where
  "kind_ok st =
     (st_mode st = S_IFREG \<or> st_mode st = S_IFBLK \<or> (st_mode st = S_IFCHR \<and> st_size st \<noteq> 0))"

definition file_count :: "string \<Rightarrow> nat" where
  "file_count cat = (if cat \<noteq> [] then count_files cat 1 else 1)"

text \<open>The disk on which \<open>fstat\<close> fails on descriptor 3, the next one to be handed out.\<close>

definition nostat_disk :: fsys where
  "nostat_disk = disk\<lparr>fs_nostat := (\<lambda>fd. fd = 3)\<rparr>"

section \<open>Properties\<close>

subsection \<open>The examples\<close>

lemma disk_nostat [simp]: "fs_nostat disk = (\<lambda>fd. False)"
  by (simp add: disk_def)

lemma strcasecmp_file [simp]:
  "\<not> strcasecmp_eq ''file'' ''stream''" "\<not> strcasecmp_eq ''file'' ''kfir''"
  by (simp_all add: strcasecmp_eq_def tolower_def)

lemma Open_ab: "Open posix ''/home'' ''file'' ''a'' (Some ''b'') disk = (Inr ab_access, ab_world)"
  by (simp add: Open_def init_access_def open_loop.simps open_nth_def open_file_def expand_path_def
      probe_def posix_def px_open_def px_fstat_def seekable_after_def disk_def
      ab_access_def ab_world_def Let_def fun_upd_twist)

subsection \<open>Seek\<close>

lemma seek_loop_in_range:
  "fc = length szv \<Longrightarrow> \<forall>x\<in>set szv. 0 \<le> x \<Longrightarrow> i < fc \<Longrightarrow> p \<le> sum_list (drop i szv) \<Longrightarrow>
    \<exists>j off. seek_loop fc szv i p = Inr (j, off) \<and> i \<le> j \<and> j < fc \<and> off \<le> szv ! j
       \<and> p + sum_list (take i szv) = off + sum_list (take j szv)"
proof (induction fc szv i p rule: seek_loop.induct)
  case (1 fc szv i p)
  have len: "i < length szv" using 1 by simp
  have dr: "sum_list (drop i szv) = szv ! i + sum_list (drop (Suc i) szv)"
    using len by (metis Cons_nth_drop_Suc sum_list.Cons)
  have tk: "sum_list (take (Suc i) szv) = sum_list (take i szv) + szv ! i"
    using len by (simp add: take_Suc_conv_app_nth)
  show ?case
  proof (cases "p > szv ! i")
    case True
    then have pos: "0 < sum_list (drop (Suc i) szv)" using 1(5) dr by linarith
    then have "drop (Suc i) szv \<noteq> []" by auto
    then have suc: "Suc i < fc" using 1(2) by simp
    have "p - szv ! i \<le> sum_list (drop (Suc i) szv)" using 1(5) dr by linarith
    from 1(1)[OF _ True suc 1(2) 1(3) suc this] len
    obtain j off where h: "seek_loop fc szv (Suc i) (p - szv ! i) = Inr (j, off)"
      "Suc i \<le> j" "j < fc" "off \<le> szv ! j"
      "p - szv ! i + sum_list (take (Suc i) szv) = off + sum_list (take j szv)"
      by auto
    have "seek_loop fc szv i p = Inr (j, off)"
      using True suc len h(1) by (subst seek_loop.simps) simp
    then show ?thesis using h tk by auto
  next
    case False
    then have "seek_loop fc szv i p = Inr (i, p)"
      using len by (subst seek_loop.simps) simp
    then show ?thesis using False 1(4) by auto
  qed
qed

lemma seek_clamp_in_range:
  "0 \<le> info_i_size s \<Longrightarrow> 0 \<le> t \<Longrightarrow> t \<le> info_i_size s \<Longrightarrow>
     0 \<le> fst (seek_clamp os t s w) \<and> fst (seek_clamp os t s w) \<le> info_i_size s"
  by (simp add: seek_clamp_def)

text \<open>
  Claim C10. Let the size table have \<open>N \<ge> 1\<close> entries, none negative, whose sum is the
  logical size, and let \<open>0 \<le> t \<le> logical size\<close>. Then the loop of \<open>Seek\<close> started on \<open>t\<close>
  ends with an index below \<open>N\<close>, and \<open>Seek\<close> itself returns without a failed assertion
  and without an access outside the size table or the descriptor table, with a current file
  below \<open>N\<close>.
\<close>

theorem Seek_index_in_bounds:
  assumes "length (sizev s) = filec s" and "length (filev s) = filec s" and "1 \<le> filec s"
    and "\<forall>x\<in>set (sizev s). 0 \<le> x" and "sum_list (sizev s) = info_i_size s"
    and "0 \<le> t" and "t \<le> info_i_size s"
  shows "(\<exists>j off. seek_loop (filec s) (sizev s) 0 t = Inr (j, off) \<and> j < filec s)
       \<and> (\<exists>s' w'. Seek os t s w = Inr (s', w') \<and> filep s' < filec s
              \<and> filec s' = filec s \<and> sizev s' = sizev s \<and> filev s' = filev s)"
proof
  have pos: "0 < filec s" using assms(3) by simp
  show "\<exists>j off. seek_loop (filec s) (sizev s) 0 t = Inr (j, off) \<and> j < filec s"
    using seek_loop_in_range [of "filec s" "sizev s" 0 t] assms pos by auto
  obtain p w1 where cl: "seek_clamp os t s w = (p, w1)" by (cases "seek_clamp os t s w")
  have "0 \<le> info_i_size s" using assms(6,7) by simp
  then have "p \<le> info_i_size s"
    using seek_clamp_in_range [of s t os w] assms(6,7) cl by simp
  then obtain j off where lp: "seek_loop (filec s) (sizev s) 0 p = Inr (j, off)" "j < filec s"
    using seek_loop_in_range [of "filec s" "sizev s" 0 p] assms pos by auto
  show "\<exists>s' w'. Seek os t s w = Inr (s', w') \<and> filep s' < filec s
          \<and> filec s' = filec s \<and> sizev s' = sizev s \<and> filev s' = filev s"
    using cl lp pos assms(2) by (simp add: Seek_def)
qed

theorem Seek_index_in_bounds_witness:
  "length (sizev ab_access) = filec ab_access \<and> length (filev ab_access) = filec ab_access
   \<and> 1 \<le> filec ab_access \<and> list_all (\<lambda>x. 0 \<le> x) (sizev ab_access)
   \<and> sum_list (sizev ab_access) = info_i_size ab_access \<and> (0::int) \<le> 4
   \<and> 4 \<le> info_i_size ab_access
   \<and> seek_loop 2 [3, 5] 0 4 = Inr (1, 1)
   \<and> (\<exists>s' w'. Seek posix 4 ab_access ab_world = Inr (s', w') \<and> filep s' < 2)"
  using Seek_index_in_bounds [of ab_access 4 posix ab_world]
  by (auto simp: ab_access_def seek_loop.simps)

text \<open>
  Claim C3, evaluated on the stream of \<open>a\<close> and \<open>b\<close> (sizes 3 and 5, position 0).
  \<open>Seek\<close> tests the position the stream has, not its argument: for the target 100 the
  position is not set to the size 8 and the loop leaves the size table, where the assertion
  \<open>i < filec\<close> fails; for the target -5 the position becomes -5, not 0.
\<close>

theorem Seek_target_not_clamped:
  "Seek posix 100 ab_access ab_world = Inl Assert_failed
   \<and> Seek posix (- 5) ab_access ab_world
       = Inr (ab_access\<lparr>info_i_pos := - 5\<rparr>, ab_world)"
  by (simp add: Seek_def seek_clamp_def seek_loop.simps ab_access_def ab_world_def
      posix_def px_lseek_def disk_def)

subsection \<open>Read\<close>

lemma size_check_frame:
  "filep s < length (sizev s) \<Longrightarrow>
   \<exists>s1. size_check os nb fd s w = Inr s1 \<and> filep s1 = filep s \<and> filec s1 = filec s
      \<and> filev s1 = filev s \<and> length (sizev s1) = length (sizev s)
      \<and> info_b_eof s1 = info_b_eof s \<and> info_i_pos s1 = info_i_pos s
      \<and> b_kfir s1 = b_kfir s \<and> b_pace_control s1 = b_pace_control s
      \<and> b_seekable s1 = b_seekable s \<and> i_nb_reads s1 = i_nb_reads s"
  by (simp add: size_check_def split: option.splits)

lemma read_strategy_flags:
  "b_pace_control t = b_pace_control s \<Longrightarrow> b_kfir t = b_kfir s \<Longrightarrow>
   read_strategy os t = read_strategy os s"
  by (intro ext) (simp add: read_strategy_def)

lemma Read_zero_not_last:
  assumes "filep s < length (filev s)"
    and "read_strategy os s (filev s ! filep s) i_len w = Some (Some r, w1)"
    and "ret_of r = 0"
    and "size_check os nb (filev s ! filep s) (s\<lparr>i_nb_reads := i_nb_reads s + 1\<rparr>) w1 = Inr s1"
    and "filep s1 = filep s" "filec s1 = filec s"
    and "Suc (filep s) < filec s"
  shows "Read os nb i_len s w = Read os nb i_len (s1\<lparr>filep := Suc (filep s)\<rparr>) w1"
  using assms
  by (subst Read.simps) (simp add: Read_step_def)

lemma Read_zero_last:
  assumes "filep s < length (filev s)"
    and "read_strategy os s (filev s ! filep s) i_len w = Some (Some r, w1)"
    and "ret_of r = 0"
    and "size_check os nb (filev s ! filep s) (s\<lparr>i_nb_reads := i_nb_reads s + 1\<rparr>) w1 = Inr s1"
    and "filep s1 = filep s" "filec s1 = filec s"
    and "\<not> Suc (filep s) < filec s"
  shows "Read os nb i_len s w = Some (Inr (0, [], s1\<lparr>info_b_eof := True\<rparr>, w1))"
  using assms
  by (subst Read.simps) (simp add: Read_step_def)


lemma Read_step_read:
  assumes "filep s < length (filev s)"
    and "read_strategy os s (filev s ! filep s) i_len w = Some (Some r, w1)"
    and "size_check os nb (filev s ! filep s) (s\<lparr>i_nb_reads := i_nb_reads s + 1\<rparr>)
           (if ret_of r < 0 then read_failed os r w1 else w1) = Inr s2"
  shows "Read_step os nb i_len s w =
     Some (Inr (if ret_of r = 0 \<and> Suc (filep s2) < filec s2
                then Next_file (s2\<lparr>filep := Suc (filep s2)\<rparr>)
                       (if ret_of r < 0 then read_failed os r w1 else w1)
                else if ret_of r > 0
                then Return (ret_of r) (bytes_of r) (s2\<lparr>info_i_pos := info_i_pos s2 + ret_of r\<rparr>)
                       (if ret_of r < 0 then read_failed os r w1 else w1)
                else if ret_of r = 0
                then Return 0 [] (s2\<lparr>info_b_eof := True\<rparr>)
                       (if ret_of r < 0 then read_failed os r w1 else w1)
                else Return (ret_of r) [] s2
                       (if ret_of r < 0 then read_failed os r w1 else w1)))"
  using assms by (simp add: Read_step_def Let_def)

lemma Read_step_cases:
  assumes "Read_step os nb i_len s w = Some (Inr st)"
  obtains (cancel) w1 where "filep s < length (filev s)"
      "read_strategy os s (filev s ! filep s) i_len w = Some (None, w1)"
      "st = Return 0 [] s w1"
  | (read) r w1 s2 where "filep s < length (filev s)"
      "read_strategy os s (filev s ! filep s) i_len w = Some (Some r, w1)"
      "size_check os nb (filev s ! filep s) (s\<lparr>i_nb_reads := i_nb_reads s + 1\<rparr>)
           (if ret_of r < 0 then read_failed os r w1 else w1) = Inr s2"
proof (cases "filep s < length (filev s)")
  case False
  then show ?thesis using assms by (simp add: Read_step_def)
next
  case len: True
  show ?thesis
  proof (cases "read_strategy os s (filev s ! filep s) i_len w")
    case None
    then show ?thesis using assms len by (simp add: Read_step_def)
  next
    case (Some p)
    obtain ro w1 where p: "p = (ro, w1)" by (cases p)
    show ?thesis
    proof (cases ro)
      case None
      then show ?thesis using assms len Some p cancel by (simp add: Read_step_def)
    next
      case (Some r)
      note r = this
      show ?thesis
      proof (cases "size_check os nb (filev s ! filep s) (s\<lparr>i_nb_reads := i_nb_reads s + 1\<rparr>)
           (if ret_of r < 0 then read_failed os r w1 else w1)")
        case (Inl f)
        then show ?thesis using assms len \<open>read_strategy os s (filev s ! filep s) i_len w = Some p\<close> p r
          by (simp add: Read_step_def Let_def)
      next
        case (Inr s2)
        then show ?thesis using read [of r w1 s2] len \<open>read_strategy os s (filev s ! filep s) i_len w = Some p\<close> p r
          by simp
      qed
    qed
  qed
qed

lemma size_check_Inr_frame:
  "size_check os nb fd s w = Inr s1 \<Longrightarrow>
     filep s1 = filep s \<and> filec s1 = filec s
      \<and> filev s1 = filev s \<and> length (sizev s1) = length (sizev s)
      \<and> info_b_eof s1 = info_b_eof s \<and> info_i_pos s1 = info_i_pos s
      \<and> b_kfir s1 = b_kfir s \<and> b_pace_control s1 = b_pace_control s
      \<and> b_seekable s1 = b_seekable s \<and> i_nb_reads s1 = i_nb_reads s"
  by (cases "os_fstat os fd w") (auto simp: size_check_def split: if_splits)

lemma Read_step_Return_eof:
  assumes "Read_step os nb i_len s w = Some (Inr (Return i_ret buf s' w'))"
    and "info_b_eof s'" "\<not> info_b_eof s"
  shows "i_ret = 0 \<and> buf = [] \<and> filep s' = filep s \<and> \<not> Suc (filep s) < filec s
     \<and> filec s' = filec s
     \<and> (\<exists>r. read_strategy os s (filev s ! filep s) i_len w = Some (Some r, w') \<and> ret_of r = 0)"
  using assms(1)
proof (cases rule: Read_step_cases)
  case (cancel w1)
  then show ?thesis using assms by simp
next
  case (read r w1 s2)
  note fr = size_check_Inr_frame [OF read(3)]
  have "Return i_ret buf s' w' = (if ret_of r = 0 \<and> Suc (filep s2) < filec s2
                then Next_file (s2\<lparr>filep := Suc (filep s2)\<rparr>)
                       (if ret_of r < 0 then read_failed os r w1 else w1)
                else if ret_of r > 0
                then Return (ret_of r) (bytes_of r) (s2\<lparr>info_i_pos := info_i_pos s2 + ret_of r\<rparr>)
                       (if ret_of r < 0 then read_failed os r w1 else w1)
                else if ret_of r = 0
                then Return 0 [] (s2\<lparr>info_b_eof := True\<rparr>)
                       (if ret_of r < 0 then read_failed os r w1 else w1)
                else Return (ret_of r) [] s2
                       (if ret_of r < 0 then read_failed os r w1 else w1))"
    using Read_step_read [OF read] assms(1) by simp
  then show ?thesis using fr assms(2,3) read(2)
    by (simp split: if_splits)
qed

lemma Read_step_Next:
  assumes "Read_step os nb i_len s w = Some (Inr (Next_file s' w'))"
  shows "filep s' = Suc (filep s) \<and> Suc (filep s) < filec s \<and> filec s' = filec s
     \<and> filev s' = filev s \<and> info_b_eof s' = info_b_eof s
     \<and> b_kfir s' = b_kfir s \<and> b_pace_control s' = b_pace_control s"
  using assms
proof (cases rule: Read_step_cases)
  case (cancel w1)
  then show ?thesis by simp
next
  case (read r w1 s2)
  note fr = size_check_Inr_frame [OF read(3)]
  have "Next_file s' w' = (if ret_of r = 0 \<and> Suc (filep s2) < filec s2
                then Next_file (s2\<lparr>filep := Suc (filep s2)\<rparr>)
                       (if ret_of r < 0 then read_failed os r w1 else w1)
                else if ret_of r > 0
                then Return (ret_of r) (bytes_of r) (s2\<lparr>info_i_pos := info_i_pos s2 + ret_of r\<rparr>)
                       (if ret_of r < 0 then read_failed os r w1 else w1)
                else if ret_of r = 0
                then Return 0 [] (s2\<lparr>info_b_eof := True\<rparr>)
                       (if ret_of r < 0 then read_failed os r w1 else w1)
                else Return (ret_of r) [] s2
                       (if ret_of r < 0 then read_failed os r w1 else w1))"
    using Read_step_read [OF read] assms(1) by simp
  then show ?thesis using fr
    by (simp split: if_splits)
qed

lemma Read_eof_last:
  "Read os nb i_len s w = Some (Inr (i_ret, buf, s', w')) \<Longrightarrow> info_b_eof s' \<Longrightarrow> \<not> info_b_eof s \<Longrightarrow>
   filep s < filec s \<Longrightarrow>
     i_ret = 0 \<and> buf = [] \<and> Suc (filep s') = filec s \<and> filec s' = filec s
     \<and> (\<exists>w0 r. read_strategy os s (filev s ! filep s') i_len w0 = Some (Some r, w') \<and> ret_of r = 0)"
proof (induction os nb i_len s w rule: Read.induct)
  case (1 os nb i_len s w)
  show ?case
  proof (cases "Read_step os nb i_len s w")
    case None
    then have "Read os nb i_len s w = None" by (subst Read.simps) simp
    then show ?thesis using 1(2) by simp
  next
    case (Some x)
    show ?thesis
    proof (cases x)
      case (Inl f)
      then have "Read os nb i_len s w = Some (Inl f)" using Some by (subst Read.simps) simp
      then show ?thesis using 1(2) by simp
    next
      case (Inr st)
      show ?thesis
      proof (cases st)
        case (Return r b t v)
        have "Read os nb i_len s w = Some (Inr (r, b, t, v))"
          using Some Inr Return by (subst Read.simps) simp
        then have eq: "r = i_ret" "b = buf" "t = s'" "v = w'"
          using 1(2) by simp_all
        from Read_step_Return_eof [of os nb i_len s w i_ret buf s' w'] Some Inr Return eq 1(3,4)
        have "i_ret = 0 \<and> buf = [] \<and> filep s' = filep s \<and> \<not> Suc (filep s) < filec s
          \<and> filec s' = filec s
          \<and> (\<exists>r. read_strategy os s (filev s ! filep s) i_len w = Some (Some r, w') \<and> ret_of r = 0)"
          by simp
        then show ?thesis using 1(5) by auto
      next
        case (Next_file t v)
        then have rd: "Read os nb i_len s w = Read os nb i_len t v"
          using Some Inr by (subst Read.simps) simp
        have st: "Read_step os nb i_len s w = Some (Inr (Next_file t v))"
          using Some Inr Next_file by simp
        note nx = Read_step_Next [OF st]
        have "i_ret = 0 \<and> buf = [] \<and> Suc (filep s') = filec t \<and> filec s' = filec t
          \<and> (\<exists>w0 r. read_strategy os t (filev t ! filep s') i_len w0 = Some (Some r, w') \<and> ret_of r = 0)"
        proof -
          have r2: "Read os nb i_len t v = Some (Inr (i_ret, buf, s', w'))"
            using 1(2) rd by simp
          have e2: "\<not> info_b_eof t" using nx 1(4) by simp
          have f2: "filep t < filec t" using nx by simp
          show ?thesis by (rule 1(1) [OF Some Inr Next_file r2 1(3) e2 f2])
        qed
        moreover have "read_strategy os t = read_strategy os s"
          by (rule read_strategy_flags) (simp_all add: nx)
        ultimately show ?thesis using nx by simp
      qed
    qed
  qed
qed

text \<open>
  Claim C2. Let the current file be one of the files of the set. When the read of the current
  file transfers no byte and a file follows, \<open>Read\<close> moves to the next file and its result
  is the result of \<open>Read\<close> there, and the end-of-stream flag is not touched at that point.
  When no file follows, the index stays, the flag is set and 0 is returned. And whenever
  \<open>Read\<close> returns with the flag newly set, it returns 0 with the index on the last file,
  after a read of that file that transferred no byte.
\<close>

theorem Read_eof_only_after_last_file:
  assumes "filep s < filec s" and "filec s \<le> length (filev s)" and "filec s \<le> length (sizev s)"
  shows "(read_strategy os s (filev s ! filep s) i_len w = Some (Some r, w1) \<and> ret_of r = 0 \<longrightarrow>
            (\<exists>s1. size_check os nb (filev s ! filep s) (s\<lparr>i_nb_reads := i_nb_reads s + 1\<rparr>) w1 = Inr s1
               \<and> filep s1 = filep s \<and> info_b_eof s1 = info_b_eof s
               \<and> Read os nb i_len s w =
                   (if Suc (filep s) < filec s
                    then Read os nb i_len (s1\<lparr>filep := Suc (filep s)\<rparr>) w1
                    else Some (Inr (0, [], s1\<lparr>info_b_eof := True\<rparr>, w1)))))
       \<and> (Read os nb i_len s w = Some (Inr (i_ret, buf, s', w')) \<and> info_b_eof s' \<and> \<not> info_b_eof s \<longrightarrow>
            i_ret = 0 \<and> buf = [] \<and> Suc (filep s') = filec s
            \<and> (\<exists>w0 r0. read_strategy os s (filev s ! filep s') i_len w0 = Some (Some r0, w')
                  \<and> ret_of r0 = 0))"
proof (intro conjI impI)
  assume a: "read_strategy os s (filev s ! filep s) i_len w = Some (Some r, w1) \<and> ret_of r = 0"
  have len: "filep s < length (filev s)" using assms by simp
  have "filep (s\<lparr>i_nb_reads := i_nb_reads s + 1\<rparr>) < length (sizev (s\<lparr>i_nb_reads := i_nb_reads s + 1\<rparr>))"
    using assms by simp
  from size_check_frame [OF this, of os nb "filev s ! filep s" w1]
  obtain s1 where s1: "size_check os nb (filev s ! filep s) (s\<lparr>i_nb_reads := i_nb_reads s + 1\<rparr>) w1 = Inr s1"
    "filep s1 = filep s" "filec s1 = filec s" "info_b_eof s1 = info_b_eof s"
    by auto
  have "Read os nb i_len s w =
          (if Suc (filep s) < filec s
           then Read os nb i_len (s1\<lparr>filep := Suc (filep s)\<rparr>) w1
           else Some (Inr (0, [], s1\<lparr>info_b_eof := True\<rparr>, w1)))"
    using Read_zero_not_last [OF len _ _ s1(1,2,3), of i_len w r]
      Read_zero_last [OF len _ _ s1(1,2,3), of i_len w r] a
    by simp
  then show "\<exists>s1. size_check os nb (filev s ! filep s) (s\<lparr>i_nb_reads := i_nb_reads s + 1\<rparr>) w1 = Inr s1
               \<and> filep s1 = filep s \<and> info_b_eof s1 = info_b_eof s
               \<and> Read os nb i_len s w =
                   (if Suc (filep s) < filec s
                    then Read os nb i_len (s1\<lparr>filep := Suc (filep s)\<rparr>) w1
                    else Some (Inr (0, [], s1\<lparr>info_b_eof := True\<rparr>, w1)))"
    using s1 by blast
next
  assume b: "Read os nb i_len s w = Some (Inr (i_ret, buf, s', w')) \<and> info_b_eof s' \<and> \<not> info_b_eof s"
  then have "i_ret = 0 \<and> buf = [] \<and> Suc (filep s') = filec s \<and> filec s' = filec s
     \<and> (\<exists>w0 r. read_strategy os s (filev s ! filep s') i_len w0 = Some (Some r, w') \<and> ret_of r = 0)"
    using Read_eof_last [of os nb i_len s w i_ret buf s' w'] assms(1) by simp
  then show "i_ret = 0" "buf = []" "Suc (filep s') = filec s"
    "\<exists>w0 r0. read_strategy os s (filev s ! filep s') i_len w0 = Some (Some r0, w') \<and> ret_of r0 = 0"
    by simp_all
qed

theorem Read_eof_only_after_last_file_witness:
  "filep ab_access < filec ab_access \<and> filec ab_access \<le> length (filev ab_access)
   \<and> filec ab_access \<le> length (sizev ab_access)
   \<and> read_strategy posix ab_access 3 8 ab_end = Some (Some (Bytes []), ab_end)
   \<and> ret_of (Bytes []) = 0
   \<and> Read posix 10 8 ab_access ab_end
        = Read posix 10 8 (ab_access\<lparr>i_nb_reads := 1, filep := 1\<rparr>) ab_end
   \<and> Read posix 10 8 ab_access ab_end
        = Some (Inr (0, [], ab_access\<lparr>i_nb_reads := 2, filep := 1, info_b_eof := True\<rparr>, ab_end))
   \<and> Suc (filep (ab_access\<lparr>i_nb_reads := 2, filep := 1, info_b_eof := True\<rparr>)) = filec ab_access"
proof -
  have rs: "read_strategy posix ab_access 3 8 ab_end = Some (Some (Bytes []), ab_end)"
    by (simp add: read_strategy_def ab_access_def ab_end_def ab_world_def disk_def posix_def
        px_read_def fun_upd_twist)
  have rd: "Read posix 10 8 ab_access ab_end
        = Some (Inr (0, [], ab_access\<lparr>i_nb_reads := 2, filep := 1, info_b_eof := True\<rparr>, ab_end))"
    by (simp add: Read.simps Read_step_def read_strategy_def size_check_def ab_access_def
        ab_end_def ab_world_def disk_def posix_def px_read_def px_fstat_def)
  have sc: "size_check posix 10 3 (ab_access\<lparr>i_nb_reads := i_nb_reads ab_access + 1\<rparr>) ab_end
        = Inr (ab_access\<lparr>i_nb_reads := 1\<rparr>)"
    by (simp add: size_check_def ab_access_def)
  show ?thesis
    using Read_eof_only_after_last_file [where s = ab_access and os = posix and i_len = 8
        and w = ab_end and r = "Bytes []" and ?w1.0 = ab_end and nb = 10 and i_ret = 0
        and buf = "[]" and s' = "ab_access\<lparr>i_nb_reads := 2, filep := 1, info_b_eof := True\<rparr>"
        and w' = ab_end] rs rd sc
    by (simp add: ab_access_def)
qed

lemma size_check_value:
  assumes "filep s < length (sizev s)"
  shows "\<exists>s1. size_check os nb fd s w = Inr s1 \<and>
     (if info_i_size s \<noteq> 0 \<and> i_nb_reads s mod nb = 0
      then (case os_fstat os fd w of
              None \<Rightarrow> info_i_size s1 = info_i_size s \<and> sizev s1 = sizev s
            | Some sb \<Rightarrow> info_i_size s1 = info_i_size s + (st_size sb - sizev s ! filep s)
                \<and> sizev s1 = (sizev s)[filep s := st_size sb])
      else info_i_size s1 = info_i_size s \<and> sizev s1 = sizev s)"
proof (cases "os_fstat os fd w")
  case None
  then show ?thesis by (simp add: size_check_def)
next
  case (Some sb)
  show ?thesis
  proof (cases "sizev s ! filep s = st_size sb")
    case True
    then have "(sizev s)[filep s := st_size sb] = sizev s"
      by (metis list_update_id)
    then show ?thesis using Some True assms by (simp add: size_check_def)
  next
    case False
    then show ?thesis using Some assms by (simp add: size_check_def)
  qed
qed

lemma Read_step_read_state:
  assumes "filep s < length (filev s)"
    and "read_strategy os s (filev s ! filep s) i_len w = Some (Some r, w1)"
    and "size_check os nb (filev s ! filep s) (s\<lparr>i_nb_reads := i_nb_reads s + 1\<rparr>)
           (if ret_of r < 0 then read_failed os r w1 else w1) = Inr s2"
  shows "\<exists>st. Read_step os nb i_len s w = Some (Inr st)
     \<and> info_i_size (step_state st) = info_i_size s2 \<and> sizev (step_state st) = sizev s2
     \<and> i_nb_reads (step_state st) = i_nb_reads s2"
  by (simp add: Read_step_read [OF assms])


lemma poll_loop_die: "os_die os w \<Longrightarrow> poll_loop os fd w = Some (False, w)"
  by (subst poll_loop.simps) simp

lemma poll_loop_ready:
  "\<not> os_die os w \<Longrightarrow> os_poll os fd w = (n, w1) \<Longrightarrow> 0 < n \<Longrightarrow> poll_loop os fd w = Some (True, w1)"
  by (subst poll_loop.simps) simp

lemma poll_loop_again:
  "\<not> os_die os w \<Longrightarrow> os_poll os fd w = (n, w1) \<Longrightarrow> n \<le> 0 \<Longrightarrow> poll_loop os fd w = poll_loop os fd w1"
  by (subst poll_loop.simps) simp

lemma kfir_loop_exit:
  "os_read os fd i_len w = (r, w1) \<Longrightarrow> ret_of r \<noteq> 0 \<or> os_die os w1 \<Longrightarrow>
     kfir_loop os fd i_len w = Some (r, w1)"
  by (subst kfir_loop.simps) auto

lemma kfir_loop_again:
  "os_read os fd i_len w = (r, w1) \<Longrightarrow> ret_of r = 0 \<Longrightarrow> \<not> os_die os w1 \<Longrightarrow>
     kfir_loop os fd i_len w = kfir_loop os fd i_len (os_msleep os w1)"
  by (subst kfir_loop.simps) simp




text \<open>
  Claim C6, as amended. A call of \<open>Read\<close> that reads the current file adds one to
  \<open>i_nb_reads\<close> (an \<open>unsigned\<close>, so modulo \<open>2^32\<close>). When the logical size is not 0
  and the new count is a multiple of \<open>INPUT_FSTAT_NB_READS\<close> and \<open>fstat\<close> succeeds, the
  logical size changes by the size found minus the size recorded for the current index, and
  that entry of the size table becomes the size found. In every other case (logical size 0,
  another count, \<open>fstat\<close> fails) the logical size and the size table stay as they were.
\<close>

theorem Read_size_tracking:
  assumes "filep s < length (filev s)" and "filep s < length (sizev s)"
    and "read_strategy os s (filev s ! filep s) i_len w = Some (Some r, w1)"
    and "w2 = (if ret_of r < 0 then read_failed os r w1 else w1)"
  shows "\<exists>st. Read_step os nb i_len s w = Some (Inr st)
     \<and> i_nb_reads (step_state st) = i_nb_reads s + 1
     \<and> (if info_i_size s \<noteq> 0 \<and> (i_nb_reads s + 1) mod nb = 0
        then (case os_fstat os (filev s ! filep s) w2 of
                None \<Rightarrow> info_i_size (step_state st) = info_i_size s
                         \<and> sizev (step_state st) = sizev s
              | Some sb \<Rightarrow>
                  info_i_size (step_state st) = info_i_size s + (st_size sb - sizev s ! filep s)
                  \<and> sizev (step_state st) = (sizev s)[filep s := st_size sb])
        else info_i_size (step_state st) = info_i_size s \<and> sizev (step_state st) = sizev s)"
proof -
  let ?s0 = "s\<lparr>i_nb_reads := i_nb_reads s + 1\<rparr>"
  have "filep ?s0 < length (sizev ?s0)" using assms(2) by simp
  from size_check_value [OF this, of os nb "filev s ! filep s" w2]
  obtain s1 where s1: "size_check os nb (filev s ! filep s) ?s0 w2 = Inr s1"
    and v: "(if info_i_size ?s0 \<noteq> 0 \<and> i_nb_reads ?s0 mod nb = 0
      then (case os_fstat os (filev s ! filep s) w2 of
              None \<Rightarrow> info_i_size s1 = info_i_size ?s0 \<and> sizev s1 = sizev ?s0
            | Some sb \<Rightarrow> info_i_size s1 = info_i_size ?s0 + (st_size sb - sizev ?s0 ! filep ?s0)
                \<and> sizev s1 = (sizev ?s0)[filep ?s0 := st_size sb])
      else info_i_size s1 = info_i_size ?s0 \<and> sizev s1 = sizev ?s0)"
    by blast
  have nb1: "i_nb_reads s1 = i_nb_reads s + 1"
    using size_check_Inr_frame [OF s1] by simp
  have "size_check os nb (filev s ! filep s) ?s0
           (if ret_of r < 0 then read_failed os r w1 else w1) = Inr s1"
    using s1 assms(4) by simp
  from Read_step_read_state [OF assms(1) assms(3) this]
  obtain st where st: "Read_step os nb i_len s w = Some (Inr st)"
    "info_i_size (step_state st) = info_i_size s1" "sizev (step_state st) = sizev s1"
    "i_nb_reads (step_state st) = i_nb_reads s1"
    by blast
  show ?thesis
  proof (cases "info_i_size s = 0")
    case True
    then show ?thesis using st nb1 v by simp
  next
    case nz: False
    show ?thesis
    proof (cases "(i_nb_reads s + 1) mod nb = 0")
      case True
      then show ?thesis using nz st nb1 v
        by (cases "os_fstat os (filev s ! filep s) w2") simp_all
    next
      case False
      then show ?thesis using st nb1 v by simp
    qed
  qed
qed


theorem Read_size_tracking_witness:
  "filep (ab_access\<lparr>i_nb_reads := 9\<rparr>) < length (filev (ab_access\<lparr>i_nb_reads := 9\<rparr>))
   \<and> filep (ab_access\<lparr>i_nb_reads := 9\<rparr>) < length (sizev (ab_access\<lparr>i_nb_reads := 9\<rparr>))
   \<and> read_strategy posix (ab_access\<lparr>i_nb_reads := 9\<rparr>) 3 8 ab_grown
        = Some (Some (Bytes ''abcXY''), snd (px_read 3 8 ab_grown))
   \<and> px_fstat 3 (snd (px_read 3 8 ab_grown)) = Some \<lparr>st_mode = S_IFREG, st_size = 5\<rparr>
   \<and> (\<exists>st. Read_step posix 10 8 (ab_access\<lparr>i_nb_reads := 9\<rparr>) ab_grown = Some (Inr st)
         \<and> i_nb_reads (step_state st) = 10
         \<and> info_i_size (step_state st) = 10 \<and> sizev (step_state st) = [5, 5])"
proof -
  have rs: "read_strategy posix (ab_access\<lparr>i_nb_reads := 9\<rparr>) 3 8 ab_grown
        = Some (Some (Bytes ''abcXY''), snd (px_read 3 8 ab_grown))"
    by (simp add: read_strategy_def ab_access_def ab_grown_def ab_world_def disk_def posix_def
        px_read_def Let_def)
  have fs: "px_fstat 3 (snd (px_read 3 8 ab_grown)) = Some \<lparr>st_mode = S_IFREG, st_size = 5\<rparr>"
    by (simp add: px_fstat_def px_read_def Let_def ab_grown_def ab_world_def disk_def)
  show ?thesis
    using Read_size_tracking [where s = "ab_access\<lparr>i_nb_reads := 9\<rparr>" and os = posix
        and i_len = 8 and w = ab_grown and r = "Bytes ''abcXY''"
        and ?w1.0 = "snd (px_read 3 8 ab_grown)" and ?w2.0 = "snd (px_read 3 8 ab_grown)"
        and nb = 10] rs fs
    by (simp add: ab_access_def posix_def)
qed

text \<open>
  Claim C6 as it is stated fails when the logical size is 0: the stream below was opened
  on an empty file in the mode \<open>stream\<close>, the file holds five bytes now, and the tenth call
  of \<open>Read\<close> (with \<open>INPUT_FSTAT_NB_READS\<close> = 10) leaves the logical size 0 and the size
  table \<open>[0]\<close>, although \<open>fstat\<close> gives the size 5.
\<close>

theorem Read_size_tracking_counterexample:
  "Read posix 10 8 grow_access grow_world
     = Some (Inr (5, ''hello'', grow_access\<lparr>info_i_pos := 5, i_nb_reads := 10\<rparr>,
          grow_world\<lparr>fs_fds := [3 \<mapsto> \<lparr>of_mode = S_IFREG, of_data = ''hello'', of_off = 5\<rparr>]\<rparr>))
   \<and> (10 :: 32 word) mod 10 = 0
   \<and> px_fstat 3 (grow_world\<lparr>fs_fds := [3 \<mapsto> \<lparr>of_mode = S_IFREG, of_data = ''hello'', of_off = 5\<rparr>]\<rparr>)
       = Some \<lparr>st_mode = S_IFREG, st_size = 5\<rparr>
   \<and> sizev (grow_access\<lparr>info_i_pos := 5, i_nb_reads := 10\<rparr>) = [0]
   \<and> info_i_size (grow_access\<lparr>info_i_pos := 5, i_nb_reads := 10\<rparr>) = 0"
proof -
  have pl: "poll_loop posix 3 grow_world = Some (True, grow_world)"
    by (rule poll_loop_ready [where n = 1]) (simp_all add: posix_def grow_world_def disk_def)
  have rs: "read_strategy posix grow_access 3 8 grow_world
      = Some (Some (Bytes ''hello''),
          grow_world\<lparr>fs_fds := [3 \<mapsto> \<lparr>of_mode = S_IFREG, of_data = ''hello'', of_off = 5\<rparr>]\<rparr>)"
    by (simp add: read_strategy_def grow_access_def pl)
       (simp add: posix_def px_read_def Let_def grow_world_def disk_def)
  have "Read_step posix 10 8 grow_access grow_world
     = Some (Inr (Return 5 ''hello'' (grow_access\<lparr>info_i_pos := 5, i_nb_reads := 10\<rparr>)
          (grow_world\<lparr>fs_fds := [3 \<mapsto> \<lparr>of_mode = S_IFREG, of_data = ''hello'', of_off = 5\<rparr>]\<rparr>)))"
    using rs by (simp add: Read_step_def size_check_def grow_access_def)
  then have "Read posix 10 8 grow_access grow_world
     = Some (Inr (5, ''hello'', grow_access\<lparr>info_i_pos := 5, i_nb_reads := 10\<rparr>,
          grow_world\<lparr>fs_fds := [3 \<mapsto> \<lparr>of_mode = S_IFREG, of_data = ''hello'', of_off = 5\<rparr>]\<rparr>))"
    by (simp add: Read.simps)
  then show ?thesis
    by (simp add: px_fstat_def grow_access_def grow_world_def)
qed

lemma Read_of_Return:
  "Read_step os nb i_len s w = Some (Inr (Return i_ret buf s' w')) \<Longrightarrow>
     Read os nb i_len s w = Some (Inr (i_ret, buf, s', w'))"
  by (subst Read.simps) simp

lemma Read_step_eq_Read_eq:
  "Read_step os nb i_len s w = Read_step os nb i_len s w' \<Longrightarrow>
     Read os nb i_len s w = Read os nb i_len s w'"
  by (simp add: Read.simps [of os nb i_len s w] Read.simps [of os nb i_len s w'])

lemma Read_of_Next:
  "Read_step os nb i_len s w = Some (Inr (Next_file s' w')) \<Longrightarrow>
     Read os nb i_len s w = Read os nb i_len s' w'"
  by (subst Read.simps) simp

lemma posix_sel:
  "os_open posix = px_open" "os_dup posix = px_dup" "os_close posix = px_close"
  "os_fstat posix = px_fstat" "os_read posix = px_read" "os_poll posix = (\<lambda>fd w. (1, w))"
  "os_lseek posix = px_lseek" "os_msleep posix = (\<lambda>w. w\<lparr>fs_sleeps := Suc (fs_sleeps w)\<rparr>)"
  "os_die posix = fs_die" "os_log posix = (\<lambda>e w. w\<lparr>fs_log := fs_log w @ [e]\<rparr>)"
  "os_ToLocale posix = (\<lambda>path. True)"
  by (simp_all add: posix_def)

lemma failing_sel:
  "os_fstat (failing e) = px_fstat" "os_read (failing e) = (\<lambda>fd i_len w. (Errno e, w))"
  "os_msleep (failing e) = (\<lambda>w. w\<lparr>fs_sleeps := Suc (fs_sleeps w)\<rparr>)"
  "os_die (failing e) = fs_die" "os_log (failing e) = (\<lambda>e w. w\<lparr>fs_log := fs_log w @ [e]\<rparr>)"
  by (simp_all add: failing_def posix_def)

lemma dying_sel:
  "os_fstat dying = px_fstat" "os_read dying = px_read"
  "os_poll dying = (\<lambda>fd w. (0, w\<lparr>fs_die := True\<rparr>))"
  "os_msleep dying = (\<lambda>w. w\<lparr>fs_sleeps := Suc (fs_sleeps w), fs_die := True\<rparr>)"
  "os_die dying = fs_die"
  by (simp_all add: dying_def posix_def)


text \<open>
  Claim C7, as amended. When the read of the current file fails, \<open>Read\<close> returns -1 to
  its caller whatever the error is: an interrupted or would-block read is neither retried
  nor turned into another result. The two kinds of error differ in the report only: for
  \<open>EINTR\<close> and \<open>EAGAIN\<close> nothing is logged, for any other error the message
  \<open>read failed\<close> and the notification \<open>File reading failed\<close> are issued. In both cases
  \<open>Read\<close> sleeps once (\<open>msleep\<close>) before it returns, and the position, the end-of-stream
  flag and the current file stay as they were.
\<close>

theorem Read_error_result:
  assumes "filep s < length (filev s)" and "filep s < length (sizev s)"
    and "read_strategy os s (filev s ! filep s) i_len w = Some (Some (Errno e), w1)"
  shows "\<exists>s'. Read os nb i_len s w =
            Some (Inr (- 1, [], s',
              os_msleep os
                (if e = EINTR \<or> e = EAGAIN then w1
                 else os_log os (User_Fatal ''File reading failed'')
                        (os_log os (Msg_Err ''read failed'') w1))))
          \<and> info_i_pos s' = info_i_pos s \<and> info_b_eof s' = info_b_eof s
          \<and> filep s' = filep s \<and> i_nb_reads s' = i_nb_reads s + 1"
proof -
  let ?s0 = "s\<lparr>i_nb_reads := i_nb_reads s + 1\<rparr>"
  let ?w2 = "if ret_of (Errno e) < 0 then read_failed os (Errno e) w1 else w1"
  have "filep ?s0 < length (sizev ?s0)" using assms(2) by simp
  from size_check_frame [OF this, of os nb "filev s ! filep s" ?w2]
  obtain s1 where s1: "size_check os nb (filev s ! filep s) ?s0 ?w2 = Inr s1"
    "filep s1 = filep s" "info_b_eof s1 = info_b_eof s" "info_i_pos s1 = info_i_pos s"
    "i_nb_reads s1 = i_nb_reads s + 1"
    by auto
  have "Read_step os nb i_len s w = Some (Inr (Return (- 1) [] s1 (read_failed os (Errno e) w1)))"
    using Read_step_read [OF assms(1) assms(3) s1(1)] by simp
  then have "Read os nb i_len s w = Some (Inr (- 1, [], s1, read_failed os (Errno e) w1))"
    by (rule Read_of_Return)
  then show ?thesis using s1 by (simp add: read_failed_def)
qed

theorem Read_error_result_witness:
  "filep ab_access < length (filev ab_access) \<and> filep ab_access < length (sizev ab_access)
   \<and> read_strategy (failing EAGAIN) ab_access 3 8 ab_world = Some (Some (Errno EAGAIN), ab_world)
   \<and> read_strategy (failing EIO) ab_access 3 8 ab_world = Some (Some (Errno EIO), ab_world)
   \<and> (\<exists>s'. Read (failing EAGAIN) 10 8 ab_access ab_world
             = Some (Inr (- 1, [], s', ab_world\<lparr>fs_sleeps := 1\<rparr>)) \<and> info_i_pos s' = 0)
   \<and> (\<exists>s'. Read (failing EIO) 10 8 ab_access ab_world
             = Some (Inr (- 1, [], s',
                  ab_world\<lparr>fs_log := fs_log ab_world @ [Msg_Err ''read failed'', User_Fatal ''File reading failed''],
                           fs_sleeps := 1\<rparr>)) \<and> info_i_pos s' = 0)"
proof -
  have rs: "read_strategy (failing e) ab_access 3 8 ab_world = Some (Some (Errno e), ab_world)" for e
    by (simp add: read_strategy_def failing_sel ab_access_def)
  have sl: "fs_sleeps ab_world = 0" by (simp add: ab_world_def disk_def)
  show ?thesis
    using Read_error_result [where s = ab_access and os = "failing EAGAIN" and i_len = 8
        and w = ab_world and e = EAGAIN and ?w1.0 = ab_world and nb = 10]
      Read_error_result [where s = ab_access and os = "failing EIO" and i_len = 8
        and w = ab_world and e = EIO and ?w1.0 = ab_world and nb = 10] rs sl
    by (auto simp: ab_access_def failing_sel)
qed


text \<open>
  Claim C7 as it is stated fails: on the stream of \<open>a\<close> and \<open>b\<close>, a read that fails
  with \<open>EAGAIN\<close> makes \<open>Read\<close> return -1, the value it returns when the read fails with
  \<open>EIO\<close>.
\<close>

theorem Read_error_result_counterexample:
  "Read (failing EAGAIN) 10 8 ab_access ab_world
     = Some (Inr (- 1, [], ab_access\<lparr>i_nb_reads := 1\<rparr>, ab_world\<lparr>fs_sleeps := 1\<rparr>))
   \<and> Read (failing EIO) 10 8 ab_access ab_world
     = Some (Inr (- 1, [], ab_access\<lparr>i_nb_reads := 1\<rparr>,
          ab_world\<lparr>fs_log := fs_log ab_world @ [Msg_Err ''read failed'', User_Fatal ''File reading failed''],
                   fs_sleeps := 1\<rparr>))"
  by (simp add: Read.simps Read_step_def read_strategy_def read_failed_def size_check_def
      failing_sel ab_access_def ab_world_def disk_def)


text \<open>
  Cancellation, where it ends the call. In the polled strategy \<open>b_die\<close> is tested before every \<open>poll\<close>:
  when it is set \<open>Read\<close> returns 0 at once, with the state and the world as they were, and
  after a \<open>poll\<close> that reports nothing \<open>Read\<close> goes on as if called in the new world, so
  it tests the flag again. In the strategy of \<open>kfir\<close> the flag is tested after every read
  that transferred no byte: when it is not set \<open>Read\<close> sleeps and goes on as if called
  anew; when it is set the loop ends at once with that empty read, which \<open>Read\<close> then
  treats as the end of the current file, so that on the last file it returns 0 with the
  end-of-stream flag set.
\<close>

lemma Read_cancellation:
  assumes "filep s < length (filev s)" and "filep s < length (sizev s)"
    and "\<not> b_pace_control s"
  shows "(\<not> b_kfir s \<and> os_die os w \<longrightarrow> Read os nb i_len s w = Some (Inr (0, [], s, w)))
       \<and> (\<not> b_kfir s \<and> \<not> os_die os w \<and> os_poll os (filev s ! filep s) w = (n, w1) \<and> n \<le> 0 \<longrightarrow>
            Read os nb i_len s w = Read os nb i_len s w1)
       \<and> (b_kfir s \<and> os_read os (filev s ! filep s) i_len w = (r, w2) \<and> ret_of r = 0
            \<and> \<not> os_die os w2 \<longrightarrow>
            Read os nb i_len s w = Read os nb i_len s (os_msleep os w2))
       \<and> (b_kfir s \<and> os_read os (filev s ! filep s) i_len w = (r, w2) \<and> ret_of r = 0
            \<and> os_die os w2 \<longrightarrow>
            read_strategy os s (filev s ! filep s) i_len w = Some (Some r, w2)
            \<and> (Suc (filep s) < filec s
                \<or> (\<exists>s'. Read os nb i_len s w = Some (Inr (0, [], s', w2))
                       \<and> info_b_eof s' \<and> filep s' = filep s)))"
proof (intro conjI impI)
  assume a: "\<not> b_kfir s \<and> os_die os w"
  then have "read_strategy os s (filev s ! filep s) i_len w = Some (None, w)"
    using assms(3) by (simp add: read_strategy_def poll_loop_die)
  then have "Read_step os nb i_len s w = Some (Inr (Return 0 [] s w))"
    using assms(1) by (simp add: Read_step_def)
  then show "Read os nb i_len s w = Some (Inr (0, [], s, w))"
    by (rule Read_of_Return)
next
  assume a: "\<not> b_kfir s \<and> \<not> os_die os w \<and> os_poll os (filev s ! filep s) w = (n, w1) \<and> n \<le> 0"
  then have "poll_loop os (filev s ! filep s) w = poll_loop os (filev s ! filep s) w1"
    using poll_loop_again [of os w "filev s ! filep s" n w1] by simp
  then have "read_strategy os s (filev s ! filep s) i_len w
      = read_strategy os s (filev s ! filep s) i_len w1"
    using a assms(3) by (simp add: read_strategy_def)
  then have "Read_step os nb i_len s w = Read_step os nb i_len s w1"
    by (simp add: Read_step_def)
  then show "Read os nb i_len s w = Read os nb i_len s w1"
    by (rule Read_step_eq_Read_eq)
next
  assume a: "b_kfir s \<and> os_read os (filev s ! filep s) i_len w = (r, w2) \<and> ret_of r = 0
            \<and> \<not> os_die os w2"
  then have "kfir_loop os (filev s ! filep s) i_len w
      = kfir_loop os (filev s ! filep s) i_len (os_msleep os w2)"
    using kfir_loop_again [of os "filev s ! filep s" i_len w r w2] by simp
  then have "read_strategy os s (filev s ! filep s) i_len w
      = read_strategy os s (filev s ! filep s) i_len (os_msleep os w2)"
    using a assms(3) by (simp add: read_strategy_def)
  then have "Read_step os nb i_len s w = Read_step os nb i_len s (os_msleep os w2)"
    by (simp add: Read_step_def)
  then show "Read os nb i_len s w = Read os nb i_len s (os_msleep os w2)"
    by (rule Read_step_eq_Read_eq)
next
  assume a: "b_kfir s \<and> os_read os (filev s ! filep s) i_len w = (r, w2) \<and> ret_of r = 0
            \<and> os_die os w2"
  then have "kfir_loop os (filev s ! filep s) i_len w = Some (r, w2)"
    using kfir_loop_exit [of os "filev s ! filep s" i_len w r w2] by simp
  then show rs: "read_strategy os s (filev s ! filep s) i_len w = Some (Some r, w2)"
    using a assms(3) by (simp add: read_strategy_def)
  let ?s0 = "s\<lparr>i_nb_reads := i_nb_reads s + 1\<rparr>"
  have "filep ?s0 < length (sizev ?s0)" using assms(2) by simp
  from size_check_frame [OF this, of os nb "filev s ! filep s" w2]
  obtain s1 where s1: "size_check os nb (filev s ! filep s) ?s0 w2 = Inr s1"
    "filep s1 = filep s" "filec s1 = filec s"
    by auto
  show "Suc (filep s) < filec s
          \<or> (\<exists>s'. Read os nb i_len s w = Some (Inr (0, [], s', w2))
                 \<and> info_b_eof s' \<and> filep s' = filep s)"
  proof (cases "Suc (filep s) < filec s")
    case True
    then show ?thesis by simp
  next
    case False
    have "Read os nb i_len s w = Some (Inr (0, [], s1\<lparr>info_b_eof := True\<rparr>, w2))"
      using Read_zero_last [OF assms(1) rs _ s1(1,2,3) False] a by simp
    then show ?thesis using s1 by simp
  qed
qed

lemma Read_cancellation_example:
  "filep grow_access < length (filev grow_access) \<and> filep grow_access < length (sizev grow_access)
   \<and> \<not> b_pace_control grow_access \<and> \<not> b_kfir grow_access
   \<and> \<not> os_die dying grow_world
   \<and> os_poll dying 3 grow_world = (0, grow_world\<lparr>fs_die := True\<rparr>)
   \<and> os_die dying (grow_world\<lparr>fs_die := True\<rparr>)
   \<and> Read dying 10 8 grow_access grow_world
        = Some (Inr (0, [], grow_access, grow_world\<lparr>fs_die := True\<rparr>))
   \<and> \<not> b_pace_control (kfir_access\<lparr>filep := 1\<rparr>) \<and> b_kfir (kfir_access\<lparr>filep := 1\<rparr>)
   \<and> os_read dying 4 8 ab_end = (Bytes [], ab_end) \<and> \<not> os_die dying ab_end
   \<and> os_read dying 4 8 (os_msleep dying ab_end) = (Bytes [], os_msleep dying ab_end)
   \<and> os_die dying (os_msleep dying ab_end)
   \<and> (\<exists>s'. Read dying 10 8 (kfir_access\<lparr>filep := 1\<rparr>) ab_end
              = Some (Inr (0, [], s', os_msleep dying ab_end)) \<and> info_b_eof s' \<and> filep s' = 1)"
proof -
  have g: "filep grow_access < length (filev grow_access)"
    "filep grow_access < length (sizev grow_access)"
    "\<not> b_pace_control grow_access" "\<not> b_kfir grow_access"
    by (simp_all add: grow_access_def)
  have k: "filep (kfir_access\<lparr>filep := 1\<rparr>) < length (filev (kfir_access\<lparr>filep := 1\<rparr>))"
    "filep (kfir_access\<lparr>filep := 1\<rparr>) < length (sizev (kfir_access\<lparr>filep := 1\<rparr>))"
    "\<not> b_pace_control (kfir_access\<lparr>filep := 1\<rparr>)" "b_kfir (kfir_access\<lparr>filep := 1\<rparr>)"
    "filev (kfir_access\<lparr>filep := 1\<rparr>) ! filep (kfir_access\<lparr>filep := 1\<rparr>) = 4"
    "\<not> Suc (filep (kfir_access\<lparr>filep := 1\<rparr>)) < filec (kfir_access\<lparr>filep := 1\<rparr>)"
    by (simp_all add: kfir_access_def ab_access_def)
  have g3: "filev grow_access ! filep grow_access = 3" by (simp add: grow_access_def)
  have p: "\<not> os_die dying grow_world"
    "os_poll dying 3 grow_world = (0, grow_world\<lparr>fs_die := True\<rparr>)"
    "os_die dying (grow_world\<lparr>fs_die := True\<rparr>)"
    by (simp_all add: dying_sel grow_world_def disk_def)
  have r: "os_read dying 4 8 ab_end = (Bytes [], ab_end)" "\<not> os_die dying ab_end"
    "os_read dying 4 8 (os_msleep dying ab_end) = (Bytes [], os_msleep dying ab_end)"
    "os_die dying (os_msleep dying ab_end)"
    by (simp_all add: dying_sel px_read_def Let_def ab_end_def ab_world_def disk_def)
  have 1: "Read dying 10 8 grow_access grow_world
        = Read dying 10 8 grow_access (grow_world\<lparr>fs_die := True\<rparr>)"
    using Read_cancellation [OF g(1,2,3), where os = dying and w = grow_world and n = 0
        and ?w1.0 = "grow_world\<lparr>fs_die := True\<rparr>" and nb = 10 and i_len = 8] g(4) g3 p
    by simp
  have 2: "Read dying 10 8 grow_access (grow_world\<lparr>fs_die := True\<rparr>)
        = Some (Inr (0, [], grow_access, grow_world\<lparr>fs_die := True\<rparr>))"
    using Read_cancellation [OF g(1,2,3), where os = dying and w = "grow_world\<lparr>fs_die := True\<rparr>"
        and nb = 10 and i_len = 8] g(4) p
    by simp
  have 3: "Read dying 10 8 (kfir_access\<lparr>filep := 1\<rparr>) ab_end
        = Read dying 10 8 (kfir_access\<lparr>filep := 1\<rparr>) (os_msleep dying ab_end)"
    using Read_cancellation [OF k(1,2,3), where os = dying and w = ab_end and r = "Bytes []"
        and ?w2.0 = ab_end and nb = 10 and i_len = 8] k(4,5) r
    by simp
  have 4: "\<exists>s'. Read dying 10 8 (kfir_access\<lparr>filep := 1\<rparr>) (os_msleep dying ab_end)
              = Some (Inr (0, [], s', os_msleep dying ab_end)) \<and> info_b_eof s'
                \<and> filep s' = 1"
    using Read_cancellation [OF k(1,2,3), where os = dying and w = "os_msleep dying ab_end"
        and r = "Bytes []" and ?w2.0 = "os_msleep dying ab_end" and nb = 10 and i_len = 8]
      k(4,5,6) r
    by (simp add: kfir_access_def)
  show ?thesis using g k(3,4) p r 1 2 3 4 by simp
qed


text \<open>
  Claim C8, evaluated on the files \<open>a\<close> and \<open>b\<close> opened in the mode \<open>kfir\<close>, when \<open>a\<close>
  has been read to its end and \<open>b_die\<close> is set. The loop of \<open>kfir\<close> sees \<open>b_die\<close> after the
  empty read of \<open>a\<close> and ends, but \<open>Read\<close> does not return: it goes on to \<open>b\<close> and
  returns its five bytes, where the polled strategy returns 0.
\<close>

theorem Read_kfir_cancel_reads_next_file:
  "os_die posix ab_die
   \<and> read_strategy posix kfir_access 3 8 ab_die = Some (Some (Bytes []), ab_die)
   \<and> Read posix 10 8 kfir_access ab_die
       = Some (Inr (5, ''defgh'', kfir_access\<lparr>info_i_pos := 5, i_nb_reads := 2, filep := 1\<rparr>,
            ab_die\<lparr>fs_fds := [3 \<mapsto> \<lparr>of_mode = S_IFREG, of_data = ''abc'', of_off = 3\<rparr>,
                               4 \<mapsto> \<lparr>of_mode = S_IFREG, of_data = ''defgh'', of_off = 5\<rparr>]\<rparr>))"
proof -
  have die: "os_die posix ab_die" by (simp add: posix_sel ab_die_def)
  have k3: "kfir_loop posix 3 8 ab_die = Some (Bytes [], ab_die)"
    by (rule kfir_loop_exit)
       (simp_all add: posix_sel px_read_def Let_def ab_die_def ab_world_def disk_def fun_upd_twist)
  have k4: "kfir_loop posix 4 8 ab_die
      = Some (Bytes ''defgh'',
          ab_die\<lparr>fs_fds := [3 \<mapsto> \<lparr>of_mode = S_IFREG, of_data = ''abc'', of_off = 3\<rparr>,
                             4 \<mapsto> \<lparr>of_mode = S_IFREG, of_data = ''defgh'', of_off = 5\<rparr>]\<rparr>)"
    by (rule kfir_loop_exit)
       (simp_all add: posix_sel px_read_def Let_def ab_die_def ab_world_def disk_def)
  have rs: "read_strategy posix kfir_access 3 8 ab_die = Some (Some (Bytes []), ab_die)"
    by (simp add: read_strategy_def kfir_access_def k3)
  have st1: "Read_step posix 10 8 kfir_access ab_die
      = Some (Inr (Next_file (kfir_access\<lparr>i_nb_reads := 1, filep := 1\<rparr>) ab_die))"
    by (simp add: Read_step_def read_strategy_def k3 size_check_def kfir_access_def ab_access_def)
  have st2: "Read_step posix 10 8 (kfir_access\<lparr>i_nb_reads := 1, filep := 1\<rparr>) ab_die
      = Some (Inr (Return 5 ''defgh'' (kfir_access\<lparr>info_i_pos := 5, i_nb_reads := 2, filep := 1\<rparr>)
          (ab_die\<lparr>fs_fds := [3 \<mapsto> \<lparr>of_mode = S_IFREG, of_data = ''abc'', of_off = 3\<rparr>,
                             4 \<mapsto> \<lparr>of_mode = S_IFREG, of_data = ''defgh'', of_off = 5\<rparr>]\<rparr>)))"
    by (simp add: Read_step_def read_strategy_def k4 size_check_def kfir_access_def ab_access_def
        posix_sel px_fstat_def)
  have "Read posix 10 8 kfir_access ab_die
       = Some (Inr (5, ''defgh'', kfir_access\<lparr>info_i_pos := 5, i_nb_reads := 2, filep := 1\<rparr>,
            ab_die\<lparr>fs_fds := [3 \<mapsto> \<lparr>of_mode = S_IFREG, of_data = ''abc'', of_off = 3\<rparr>,
                               4 \<mapsto> \<lparr>of_mode = S_IFREG, of_data = ''defgh'', of_off = 5\<rparr>]\<rparr>))"
    using Read_of_Next [OF st1] Read_of_Return [OF st2] by simp
  then show ?thesis using die rs by simp
qed

lemma px_read_frame:
  "px_read fd n w = (r, w1) \<Longrightarrow> fd' \<noteq> fd \<Longrightarrow> fs_fds w1 fd' = fs_fds w fd'"
  by (auto simp: px_read_def Let_def split: option.splits if_splits)

lemma px_lseek_frame: "fd' \<noteq> fd \<Longrightarrow> fs_fds (px_lseek fd off w) fd' = fs_fds w fd'"
  by (simp add: px_lseek_def split: option.splits)

lemma kfir_loop_posix_frame:
  assumes "kfir_loop posix fd n w = Some y"
  shows "\<forall>fd'. fd' \<noteq> fd \<longrightarrow> fs_fds (snd y) fd' = fs_fds w fd'"
proof -
  have "posix = posix \<longrightarrow> (\<forall>fd'. fd' \<noteq> fd \<longrightarrow> fs_fds (snd y) fd' = fs_fds w fd')"
  proof (rule kfir_loop.raw_induct
      [where P = "\<lambda>os fd n w y. os = posix \<longrightarrow> (\<forall>fd'. fd' \<noteq> fd \<longrightarrow> fs_fds (snd y) fd' = fs_fds w fd')",
        OF _ assms])
    fix kl :: "fsys os \<Rightarrow> int \<Rightarrow> int \<Rightarrow> fsys \<Rightarrow> (read_ret \<times> fsys) option"
      and os fd n w y
    assume ih: "\<And>os fd n w y. kl os fd n w = Some y \<Longrightarrow>
        os = posix \<longrightarrow> (\<forall>fd'. fd' \<noteq> fd \<longrightarrow> fs_fds (snd y) fd' = fs_fds w fd')"
      and eq: "(case os_read os fd n w of
          (r, w1) \<Rightarrow> if ret_of r = 0 \<and> \<not> os_die os w1 then kl os fd n (os_msleep os w1)
                     else Some (r, w1)) = Some y"
    show "os = posix \<longrightarrow> (\<forall>fd'. fd' \<noteq> fd \<longrightarrow> fs_fds (snd y) fd' = fs_fds w fd')"
    proof (intro impI allI)
      fix fd'
      assume os: "os = posix" and ne: "fd' \<noteq> fd"
      obtain r w1 where rd: "px_read fd n w = (r, w1)" by (cases "px_read fd n w")
      have fr: "fs_fds w1 fd' = fs_fds w fd'" using px_read_frame [OF rd ne] .
      show "fs_fds (snd y) fd' = fs_fds w fd'"
      proof (cases "ret_of r = 0 \<and> \<not> fs_die w1")
        case True
        then have "kl posix fd n (w1\<lparr>fs_sleeps := Suc (fs_sleeps w1)\<rparr>) = Some y"
          using eq os rd by (simp add: posix_sel)
        from ih [OF this] ne have "fs_fds (snd y) fd' = fs_fds (w1\<lparr>fs_sleeps := Suc (fs_sleeps w1)\<rparr>) fd'"
          by simp
        then show ?thesis using fr by simp
      next
        case False
        then have "y = (r, w1)" using eq os rd by (auto simp: posix_sel)
        then show ?thesis using fr by simp
      qed
    qed
  qed
  then show ?thesis by simp
qed

lemma poll_loop_posix: "poll_loop posix fd w = Some (if fs_die w then (False, w) else (True, w))"
  by (subst poll_loop.simps) (simp add: posix_sel)

lemma read_strategy_posix_frame:
  assumes "read_strategy posix s fd n w = Some (ro, w1)" and "fd' \<noteq> fd"
  shows "fs_fds w1 fd' = fs_fds w fd'"
proof (cases "b_pace_control s")
  case True
  then show ?thesis using assms
    by (auto simp: read_strategy_def posix_sel split: prod.splits dest: px_read_frame)
next
  case np: False
  show ?thesis
  proof (cases "b_kfir s")
    case True
    then have "kfir_loop posix fd n w = Some (the ro, w1)"
      using assms(1) np by (auto simp: read_strategy_def split: option.splits)
    from kfir_loop_posix_frame [OF this] assms(2) show ?thesis by simp
  next
    case False
    then show ?thesis using assms np
      by (auto simp: read_strategy_def poll_loop_posix posix_sel split: prod.splits if_splits
          dest: px_read_frame)
  qed
qed


lemma Seek_posix_world:
  assumes "Seek posix p s w = Inr (s', w')"
  shows "\<exists>off. fs_fds w' = fs_fds (px_lseek (filev s ! filep s') off w)"
proof -
  obtain q w0 where cl: "seek_clamp posix p s w = (q, w0)" by (cases "seek_clamp posix p s w")
  have w0: "fs_fds w0 = fs_fds w"
    using cl by (auto simp: seek_clamp_def posix_sel split: if_splits)
  have pos: "0 < filec s" using assms cl by (auto simp: Seek_def split: if_splits)
  show ?thesis
  proof (cases "seek_loop (filec s) (sizev s) 0 q")
    case (Inl f)
    then show ?thesis using assms cl pos by (simp add: Seek_def)
  next
    case (Inr jo)
    obtain j off where jo: "jo = (j, off)" by (cases jo)
    have "s' = s\<lparr>info_i_pos := q, info_b_eof := False, filep := j\<rparr>
        \<and> w' = px_lseek (filev s ! j) off w0"
      using assms cl pos Inr jo by (auto simp: Seek_def posix_sel split: if_splits)
    then have "filep s' = j" "w' = px_lseek (filev s ! j) off w0" by simp_all
    moreover have "fs_fds (px_lseek fd off w0) = fs_fds (px_lseek fd off w)" for fd
      using w0 by (simp add: px_lseek_def split: option.splits)
    ultimately show ?thesis by auto
  qed
qed

lemma Read_step_Next_world:
  assumes "Read_step os nb n s w = Some (Inr (Next_file s1 w1))"
  shows "\<exists>r. read_strategy os s (filev s ! filep s) n w = Some (Some r, w1) \<and> ret_of r = 0"
  using assms
proof (cases rule: Read_step_cases)
  case (cancel w1)
  then show ?thesis by simp
next
  case (read r w0 s2)
  have "Next_file s1 w1 = (if ret_of r = 0 \<and> Suc (filep s2) < filec s2
                then Next_file (s2\<lparr>filep := Suc (filep s2)\<rparr>)
                       (if ret_of r < 0 then read_failed os r w0 else w0)
                else if ret_of r > 0
                then Return (ret_of r) (bytes_of r) (s2\<lparr>info_i_pos := info_i_pos s2 + ret_of r\<rparr>)
                       (if ret_of r < 0 then read_failed os r w0 else w0)
                else if ret_of r = 0
                then Return 0 [] (s2\<lparr>info_b_eof := True\<rparr>)
                       (if ret_of r < 0 then read_failed os r w0 else w0)
                else Return (ret_of r) [] s2
                       (if ret_of r < 0 then read_failed os r w0 else w0))"
    using Read_step_read [OF read] assms by simp
  then have "ret_of r = 0 \<and> w1 = w0" by (simp split: if_splits)
  then show ?thesis using read(2) by simp
qed


text \<open>
  Claim C9, on the file system \<open>posix\<close>. \<open>Seek\<close> changes the descriptor table as one
  \<open>lseek\<close> on the descriptor of the file it selects does: every other descriptor keeps its
  entry, hence its offset. When \<open>Read\<close> goes on to the next file, the entries of all
  descriptors but the one just read are as before the call, so the next file is not
  repositioned: the read of the next file returns the bytes that follow the offset its
  descriptor had before the call, not the bytes from its start.
\<close>

theorem Seek_Read_touch_one_descriptor:
  "(Seek posix p s w = Inr (s', w') \<longrightarrow>
      (\<exists>off. fs_fds w' = fs_fds (px_lseek (filev s ! filep s') off w))
      \<and> (\<forall>fd. fd \<noteq> filev s ! filep s' \<longrightarrow> fs_fds w' fd = fs_fds w fd))
   \<and> (Read_step posix nb n s w = Some (Inr (Next_file s1 w1)) \<longrightarrow>
        filep s1 = Suc (filep s) \<and> filev s1 = filev s
        \<and> (\<forall>fd. fd \<noteq> filev s ! filep s \<longrightarrow> fs_fds w1 fd = fs_fds w fd))
   \<and> (Read_step posix nb n s w = Some (Inr (Next_file s1 w1))
        \<and> filev s ! Suc (filep s) \<noteq> filev s ! filep s
        \<and> fs_fds w (filev s ! Suc (filep s)) = Some f \<and> of_mode f \<noteq> S_IFDIR \<and> 0 \<le> n \<longrightarrow>
        fst (os_read posix (filev s1 ! filep s1) n w1)
          = Bytes (take (nat n) (drop (nat (of_off f)) (of_data f))))"
proof (intro conjI impI)
  assume a: "Seek posix p s w = Inr (s', w')"
  from Seek_posix_world [OF a]
  obtain off where off: "fs_fds w' = fs_fds (px_lseek (filev s ! filep s') off w)" by blast
  then show "\<exists>off. fs_fds w' = fs_fds (px_lseek (filev s ! filep s') off w)" by blast
  show "\<forall>fd. fd \<noteq> filev s ! filep s' \<longrightarrow> fs_fds w' fd = fs_fds w fd"
    using off by (simp add: px_lseek_frame)
next
  assume a: "Read_step posix nb n s w = Some (Inr (Next_file s1 w1))"
  from Read_step_Next [OF a] show "filep s1 = Suc (filep s)" "filev s1 = filev s" by simp_all
  from Read_step_Next_world [OF a]
  obtain r where "read_strategy posix s (filev s ! filep s) n w = Some (Some r, w1)" by blast
  then show "\<forall>fd. fd \<noteq> filev s ! filep s \<longrightarrow> fs_fds w1 fd = fs_fds w fd"
    using read_strategy_posix_frame by blast
next
  assume a: "Read_step posix nb n s w = Some (Inr (Next_file s1 w1))
        \<and> filev s ! Suc (filep s) \<noteq> filev s ! filep s
        \<and> fs_fds w (filev s ! Suc (filep s)) = Some f \<and> of_mode f \<noteq> S_IFDIR \<and> 0 \<le> n"
  then have st: "Read_step posix nb n s w = Some (Inr (Next_file s1 w1))" by simp
  from Read_step_Next [OF st] have nx: "filep s1 = Suc (filep s)" "filev s1 = filev s" by simp_all
  from Read_step_Next_world [OF st]
  obtain r where "read_strategy posix s (filev s ! filep s) n w = Some (Some r, w1)" by blast
  from read_strategy_posix_frame [OF this, of "filev s ! Suc (filep s)"] a
  have "fs_fds w1 (filev s ! Suc (filep s)) = Some f" by simp
  then show "fst (os_read posix (filev s1 ! filep s1) n w1)
          = Bytes (take (nat n) (drop (nat (of_off f)) (of_data f)))"
    using a nx by (simp add: posix_sel px_read_def Let_def)
qed

theorem Seek_Read_touch_one_descriptor_witness:
  "Seek posix 0 (ab_access\<lparr>info_i_pos := 5, filep := 1\<rparr>) ab_stale
      = Inr (ab_access,
          ab_world\<lparr>fs_fds := [3 \<mapsto> \<lparr>of_mode = S_IFREG, of_data = ''abc'', of_off = 0\<rparr>,
                               4 \<mapsto> \<lparr>of_mode = S_IFREG, of_data = ''defgh'', of_off = 2\<rparr>]\<rparr>)
   \<and> fs_fds (ab_world\<lparr>fs_fds := [3 \<mapsto> \<lparr>of_mode = S_IFREG, of_data = ''abc'', of_off = 0\<rparr>,
                               4 \<mapsto> \<lparr>of_mode = S_IFREG, of_data = ''defgh'', of_off = 2\<rparr>]\<rparr>) 4
       = fs_fds ab_stale 4
   \<and> Read_step posix 10 8 ab_access ab_stale
       = Some (Inr (Next_file (ab_access\<lparr>i_nb_reads := 1, filep := 1\<rparr>) ab_stale))
   \<and> filev ab_access ! Suc (filep ab_access) \<noteq> filev ab_access ! filep ab_access
   \<and> fs_fds ab_stale 4 = Some \<lparr>of_mode = S_IFREG, of_data = ''defgh'', of_off = 2\<rparr>
   \<and> (0::int) \<le> 8
   \<and> fst (os_read posix 4 8 ab_stale) = Bytes ''fgh''
   \<and> Read posix 10 8 ab_access ab_stale
       = Some (Inr (3, ''fgh'', ab_access\<lparr>info_i_pos := 3, i_nb_reads := 2, filep := 1\<rparr>,
            ab_world\<lparr>fs_fds := [3 \<mapsto> \<lparr>of_mode = S_IFREG, of_data = ''abc'', of_off = 3\<rparr>,
                                 4 \<mapsto> \<lparr>of_mode = S_IFREG, of_data = ''defgh'', of_off = 5\<rparr>]\<rparr>))"
proof -
  have sk: "Seek posix 0 (ab_access\<lparr>info_i_pos := 5, filep := 1\<rparr>) ab_stale
      = Inr (ab_access,
          ab_world\<lparr>fs_fds := [3 \<mapsto> \<lparr>of_mode = S_IFREG, of_data = ''abc'', of_off = 0\<rparr>,
                               4 \<mapsto> \<lparr>of_mode = S_IFREG, of_data = ''defgh'', of_off = 2\<rparr>]\<rparr>)"
    by (simp add: Seek_def seek_clamp_def seek_loop.simps ab_access_def ab_stale_def ab_world_def
        posix_sel px_lseek_def disk_def fun_upd_twist)
  have st: "Read_step posix 10 8 ab_access ab_stale
       = Some (Inr (Next_file (ab_access\<lparr>i_nb_reads := 1, filep := 1\<rparr>) ab_stale))"
    by (simp add: Read_step_def read_strategy_def size_check_def ab_access_def ab_stale_def
        ab_world_def disk_def posix_sel px_read_def Let_def fun_upd_twist)
  have fd4: "fs_fds ab_stale 4 = Some \<lparr>of_mode = S_IFREG, of_data = ''defgh'', of_off = 2\<rparr>"
    by (simp add: ab_stale_def ab_world_def)
  have rd: "Read posix 10 8 ab_access ab_stale
       = Some (Inr (3, ''fgh'', ab_access\<lparr>info_i_pos := 3, i_nb_reads := 2, filep := 1\<rparr>,
            ab_world\<lparr>fs_fds := [3 \<mapsto> \<lparr>of_mode = S_IFREG, of_data = ''abc'', of_off = 3\<rparr>,
                                 4 \<mapsto> \<lparr>of_mode = S_IFREG, of_data = ''defgh'', of_off = 5\<rparr>]\<rparr>))"
    by (simp add: Read.simps Read_step_def read_strategy_def size_check_def ab_access_def
        ab_stale_def ab_world_def disk_def posix_sel px_read_def px_fstat_def Let_def fun_upd_twist)
  show ?thesis
    using Seek_Read_touch_one_descriptor [where p = 0
        and s = "ab_access\<lparr>info_i_pos := 5, filep := 1\<rparr>" and w = ab_stale and s' = ab_access
        and w' = "ab_world\<lparr>fs_fds := [3 \<mapsto> \<lparr>of_mode = S_IFREG, of_data = ''abc'', of_off = 0\<rparr>,
                               4 \<mapsto> \<lparr>of_mode = S_IFREG, of_data = ''defgh'', of_off = 2\<rparr>]\<rparr>"]
      Seek_Read_touch_one_descriptor [where s = ab_access and w = ab_stale and nb = 10 and n = 8
        and ?s1.0 = "ab_access\<lparr>i_nb_reads := 1, filep := 1\<rparr>" and ?w1.0 = ab_stale
        and f = "\<lparr>of_mode = S_IFREG, of_data = ''defgh'', of_off = 2\<rparr>"]
      sk st fd4 rd
    by (simp add: ab_access_def)
qed

subsection \<open>Seek followed by Read\<close>

lemma seek_loop_nonneg:
  "\<forall>x\<in>set szv. 0 \<le> x \<Longrightarrow> 0 \<le> p \<Longrightarrow> seek_loop fc szv i p = Inr (j, off) \<Longrightarrow> 0 \<le> off"
proof (induction fc szv i p rule: seek_loop.induct)
  case (1 fc szv i p)
  show ?case
  proof (cases "length szv \<le> i")
    case True
    then show ?thesis using 1(4) by (subst (asm) seek_loop.simps) simp
  next
    case len: False
    then have nn: "0 \<le> szv ! i" using 1(2) by simp
    show ?thesis
    proof (cases "p > szv ! i")
      case True
      show ?thesis
      proof (cases "Suc i < fc")
        case suc: True
        have "seek_loop fc szv i p = seek_loop fc szv (Suc i) (p - szv ! i)"
          using len True suc by (subst seek_loop.simps) simp
        then have "seek_loop fc szv (Suc i) (p - szv ! i) = Inr (j, off)" using 1(4) by simp
        moreover have "0 \<le> p - szv ! i" using True by simp
        ultimately show ?thesis using 1(1) [OF len True suc 1(2)] by simp
      next
        case False
        have "seek_loop fc szv i p = Inl Assert_failed"
          using len True False by (subst seek_loop.simps) simp
        then show ?thesis using 1(4) by simp
      qed
    next
      case False
      have "seek_loop fc szv i p = Inr (i, p)"
        using len False by (subst seek_loop.simps) simp
      then show ?thesis using 1(3,4) by simp
    qed
  qed
qed

lemma take_drop_concat_nth:
  assumes "j < length xss" and "k \<le> length (xss ! j)" and "m \<le> length (xss ! j) - k"
  shows "take m (drop (length (concat (take j xss)) + k) (concat xss)) = take m (drop k (xss ! j))"
proof -
  have "xss = take j xss @ xss ! j # drop (Suc j) xss"
    using assms(1) by (rule id_take_nth_drop)
  then have "concat xss = concat (take j xss) @ xss ! j @ concat (drop (Suc j) xss)"
    by (metis concat.simps(2) concat_append)
  then have "drop (length (concat (take j xss)) + k) (concat xss)
      = drop k (xss ! j) @ concat (drop (Suc j) xss)"
    using assms(2) by (simp add: drop_append)
  then show ?thesis using assms(3) by simp
qed

lemma sum_list_lengths: "sum_list (map (\<lambda>xs. int (length xs)) xss) = int (length (concat xss))"
  by (induction xss) simp_all

lemma stream_ok_nth:
  assumes "stream_ok s w" and "i < filec s"
  shows "\<exists>f. fs_fds w (filev s ! i) = Some f \<and> of_mode f \<noteq> S_IFDIR \<and> of_mode f \<noteq> S_IFIFO
      \<and> of_mode f \<noteq> S_IFSOCK \<and> sizev s ! i = int (length (of_data f))
      \<and> fd_data w (filev s ! i) = of_data f"
proof -
  have "list_all2 (file_ok w) (filev s) (sizev s)" "length (filev s) = filec s"
    using assms(1) by (simp_all add: stream_ok_def)
  then have "file_ok w (filev s ! i) (sizev s ! i)"
    using assms(2) by (simp add: list_all2_nthD)
  then show ?thesis
    by (cases "fs_fds w (filev s ! i)") (simp_all add: file_ok_def fd_data_def)
qed

lemma stream_ok_sizev:
  assumes "stream_ok s w"
  shows "sizev s = map (\<lambda>xs. int (length xs)) (map (fd_data w) (filev s))"
proof (rule nth_equalityI)
  show "length (sizev s) = length (map (\<lambda>xs. int (length xs)) (map (fd_data w) (filev s)))"
    using assms by (simp add: stream_ok_def)
next
  fix i assume "i < length (sizev s)"
  then have i: "i < filec s" using assms by (simp add: stream_ok_def)
  then have "i < length (filev s)" using assms by (simp add: stream_ok_def)
  then show "sizev s ! i = map (\<lambda>xs. int (length xs)) (map (fd_data w) (filev s)) ! i"
    using stream_ok_nth [OF assms i] by auto
qed

lemma stream_ok_take_sum:
  assumes "stream_ok s w"
  shows "sum_list (take j (sizev s)) = int (length (concat (take j (map (fd_data w) (filev s)))))"
proof -
  have "take j (sizev s) = map (\<lambda>xs. int (length xs)) (take j (map (fd_data w) (filev s)))"
    by (subst stream_ok_sizev [OF assms]) (rule take_map)
  then show ?thesis by (simp only: sum_list_lengths)
qed



text \<open>
  \<open>Seek\<close> followed by \<open>Read\<close> inside one file, on the file system \<open>posix\<close>. Take a seekable stream whose size
  table holds the sizes of its files and whose position lies in the stream, a target
  \<open>0 \<le> p \<le> logical size\<close> and a length \<open>n > 0\<close>. \<open>Seek\<close> selects a file and an
  offset \<open>off\<close> in it with \<open>p\<close> = \<open>off\<close> + the sizes of the files before. When \<open>off\<close> lies
  before the end of that file, \<open>Read\<close> returns the bytes of the logical stream that start
  at \<open>p\<close>, as many as \<open>n\<close> and the rest of that file allow, at least one, and moves the
  position behind them: one call never goes beyond the end of the file it reads.
\<close>

lemma Seek_Read_within_file:
  assumes "stream_ok s w" and "0 \<le> info_i_pos s" and "info_i_pos s \<le> info_i_size s"
    and "0 \<le> p" and "p \<le> info_i_size s" and "0 < n"
  shows "\<exists>s1 w1 off. Seek posix p s w = Inr (s1, w1) \<and> info_i_pos s1 = p \<and> filep s1 < filec s
      \<and> off = p - sum_list (take (filep s1) (sizev s)) \<and> 0 \<le> off \<and> off \<le> sizev s ! filep s1
      \<and> (off = sizev s ! filep s1
          \<or> (\<exists>s2 w2 bs. Read posix nb n s1 w1 = Some (Inr (int (length bs), bs, s2, w2))
                \<and> bs \<noteq> []
                \<and> bs = take (min (nat n) (nat (sizev s ! filep s1 - off)))
                         (drop (nat p) (stream_bytes s w))
                \<and> info_i_pos s2 = p + int (length bs)))"
proof -
  have ok: "length (filev s) = filec s" "length (sizev s) = filec s" "1 \<le> filec s"
    "b_pace_control s" "info_i_size s = sum_list (sizev s)"
    using assms(1) by (simp_all add: stream_ok_def)
  have nn: "\<forall>x\<in>set (sizev s). 0 \<le> x"
    by (subst stream_ok_sizev [OF assms(1)]) auto
  have cl: "seek_clamp posix p s w = (p, w)"
    using assms(2,3) by (simp add: seek_clamp_def)
  have "0 < filec s" using ok(3) by simp
  from seek_loop_in_range [of "filec s" "sizev s" 0 p] ok(2) nn this assms(5) ok(5)
  obtain j off where lp: "seek_loop (filec s) (sizev s) 0 p = Inr (j, off)" "j < filec s"
    "off \<le> sizev s ! j" "p = off + sum_list (take j (sizev s))"
    by auto
  have off0: "0 \<le> off" using seek_loop_nonneg [OF nn assms(4) lp(1)] .
  define s1 where "s1 = s\<lparr>info_i_pos := p, info_b_eof := False, filep := j\<rparr>"
  define w1 where "w1 = px_lseek (filev s ! j) off w"
  have sk: "Seek posix p s w = Inr (s1, w1)"
    using cl lp(1,2) ok(1,3) by (simp add: Seek_def s1_def w1_def posix_sel)
  from stream_ok_nth [OF assms(1) lp(2)]
  obtain f where f: "fs_fds w (filev s ! j) = Some f" "of_mode f \<noteq> S_IFDIR"
    "of_mode f \<noteq> S_IFIFO" "of_mode f \<noteq> S_IFSOCK" "sizev s ! j = int (length (of_data f))"
    "fd_data w (filev s ! j) = of_data f"
    by blast
  have w1: "fs_fds w1 (filev s ! j) = Some (f\<lparr>of_off := off\<rparr>)"
    using f off0 by (simp add: w1_def px_lseek_def)
  have s1: "info_i_pos s1 = p" "filep s1 = j" "filev s1 = filev s" "sizev s1 = sizev s"
    "b_pace_control s1" "filec s1 = filec s"
    using ok(4) by (simp_all add: s1_def)
  have "off = sizev s ! j
     \<or> (\<exists>s2 w2 bs. Read posix nb n s1 w1 = Some (Inr (int (length bs), bs, s2, w2))
                \<and> bs \<noteq> []
                \<and> bs = take (min (nat n) (nat (sizev s ! j - off)))
                         (drop (nat p) (stream_bytes s w))
                \<and> info_i_pos s2 = p + int (length bs))"
  proof (cases "off = sizev s ! j")
    case True
    then show ?thesis by simp
  next
    case False
    then have lt: "off < int (length (of_data f))" using lp(3) f(5) by simp
    define bs where "bs = take (nat n) (drop (nat off) (of_data f))"
    define w2 where "w2 = w1\<lparr>fs_fds := (fs_fds w1)(filev s ! j \<mapsto> f\<lparr>of_off := off + int (length bs)\<rparr>)\<rparr>"
    have ne: "bs \<noteq> []" using lt off0 assms(6) by (simp add: bs_def)
    have "px_read (filev s ! j) n w1 = (Bytes bs, w2)"
      using w1 f(2) assms(6) by (simp add: px_read_def Let_def bs_def w2_def)
    then have rs: "read_strategy posix s1 (filev s1 ! filep s1) n w1 = Some (Some (Bytes bs), w2)"
      using s1 by (simp add: read_strategy_def posix_sel)
    have len: "filep s1 < length (filev s1)" using s1 lp(2) ok(1) by simp
    let ?s0 = "s1\<lparr>i_nb_reads := i_nb_reads s1 + 1\<rparr>"
    have "filep ?s0 < length (sizev ?s0)" using s1 lp(2) ok(2) by simp
    from size_check_frame [OF this, of posix nb "filev s1 ! filep s1" w2]
    obtain s2 where s2: "size_check posix nb (filev s1 ! filep s1) ?s0 w2 = Inr s2"
      "info_i_pos s2 = p"
      using s1(1) by auto
    have pos: "0 < ret_of (Bytes bs)" using ne by simp
    have "size_check posix nb (filev s1 ! filep s1) ?s0
        (if ret_of (Bytes bs) < 0 then read_failed posix (Bytes bs) w2 else w2) = Inr s2"
      using s2(1) by simp
    from Read_step_read [OF len rs this] pos
    have "Read_step posix nb n s1 w1
        = Some (Inr (Return (int (length bs)) bs (s2\<lparr>info_i_pos := info_i_pos s2 + int (length bs)\<rparr>) w2))"
      by simp
    from Read_of_Return [OF this]
    have rd: "Read posix nb n s1 w1
        = Some (Inr (int (length bs), bs, s2\<lparr>info_i_pos := info_i_pos s2 + int (length bs)\<rparr>, w2))" .
    let ?xss = "map (fd_data w) (filev s)"
    have j: "j < length ?xss" using lp(2) ok(1) by simp
    have xj: "?xss ! j = of_data f" using lp(2) ok(1) f(6) by simp
    have np: "nat p = length (concat (take j ?xss)) + nat off"
      using lp(4) off0 stream_ok_take_sum [OF assms(1), of j] by simp
    let ?m = "min (nat n) (nat (sizev s ! j - off))"
    have m: "?m \<le> length (?xss ! j) - nat off"
      using xj f(5) off0 by simp
    have k: "nat off \<le> length (?xss ! j)" using xj lt off0 by simp
    have "take ?m (drop (nat p) (stream_bytes s w)) = take ?m (drop (nat off) (of_data f))"
      using take_drop_concat_nth [OF j k m] np xj by (simp add: stream_bytes_def)
    also have "\<dots> = bs"
      using f(5) off0 by (simp add: bs_def min_def take_all_iff)
    finally have "bs = take ?m (drop (nat p) (stream_bytes s w))" by simp
    then show ?thesis using rd ne s2(2) by auto
  qed
  then show ?thesis using sk s1(1,2) lp(2,3,4) off0 by auto
qed

lemma Seek_Read_within_file_example:
  "stream_ok ab_access ab_world \<and> 0 \<le> info_i_pos ab_access
   \<and> info_i_pos ab_access \<le> info_i_size ab_access \<and> (0::int) \<le> 4
   \<and> 4 \<le> info_i_size ab_access \<and> (0::int) < 8
   \<and> stream_bytes ab_access ab_world = ''abcdefgh''
   \<and> (\<exists>s1 w1. Seek posix 0 ab_access ab_world = Inr (s1, w1) \<and> filep s1 = 0
         \<and> (\<exists>s2 w2. Read posix 10 8 s1 w1 = Some (Inr (3, ''abc'', s2, w2))
               \<and> info_i_pos s2 = 3))
   \<and> (\<exists>s1 w1. Seek posix 4 ab_access ab_world = Inr (s1, w1) \<and> filep s1 = 1
         \<and> (\<exists>s2 w2. Read posix 10 8 s1 w1 = Some (Inr (4, ''efgh'', s2, w2))
               \<and> info_i_pos s2 = 8))
   \<and> Read posix 10 8 ab_access ab_world
       = Some (Inr (3, ''abc'', ab_access\<lparr>info_i_pos := 3, i_nb_reads := 1\<rparr>,
            ab_world\<lparr>fs_fds := [3 \<mapsto> \<lparr>of_mode = S_IFREG, of_data = ''abc'', of_off = 3\<rparr>,
                                 4 \<mapsto> \<lparr>of_mode = S_IFREG, of_data = ''defgh'', of_off = 0\<rparr>]\<rparr>))
   \<and> Read posix 10 8 (ab_access\<lparr>info_i_pos := 3, i_nb_reads := 1\<rparr>)
         (ab_world\<lparr>fs_fds := [3 \<mapsto> \<lparr>of_mode = S_IFREG, of_data = ''abc'', of_off = 3\<rparr>,
                              4 \<mapsto> \<lparr>of_mode = S_IFREG, of_data = ''defgh'', of_off = 0\<rparr>]\<rparr>)
       = Some (Inr (5, ''defgh'', ab_access\<lparr>info_i_pos := 8, i_nb_reads := 3, filep := 1\<rparr>,
            ab_end))"
proof -
  have ok: "stream_ok ab_access ab_world"
    by (simp add: stream_ok_def file_ok_def ab_access_def ab_world_def)
  have sb: "stream_bytes ab_access ab_world = ''abcdefgh''"
    by (simp add: stream_bytes_def fd_data_def ab_access_def ab_world_def)
  have sk: "Seek posix 4 ab_access ab_world
      = Inr (ab_access\<lparr>info_i_pos := 4, filep := 1\<rparr>,
          ab_world\<lparr>fs_fds := [3 \<mapsto> \<lparr>of_mode = S_IFREG, of_data = ''abc'', of_off = 0\<rparr>,
                               4 \<mapsto> \<lparr>of_mode = S_IFREG, of_data = ''defgh'', of_off = 1\<rparr>]\<rparr>)"
    by (simp add: Seek_def seek_clamp_def seek_loop.simps ab_access_def ab_world_def
        posix_sel px_lseek_def disk_def fun_upd_twist)
  have r1: "Read posix 10 8 ab_access ab_world
       = Some (Inr (3, ''abc'', ab_access\<lparr>info_i_pos := 3, i_nb_reads := 1\<rparr>,
            ab_world\<lparr>fs_fds := [3 \<mapsto> \<lparr>of_mode = S_IFREG, of_data = ''abc'', of_off = 3\<rparr>,
                                 4 \<mapsto> \<lparr>of_mode = S_IFREG, of_data = ''defgh'', of_off = 0\<rparr>]\<rparr>))"
    by (simp add: Read.simps Read_step_def read_strategy_def size_check_def ab_access_def
        ab_world_def disk_def posix_sel px_read_def px_fstat_def Let_def fun_upd_twist)
  have r2: "Read posix 10 8 (ab_access\<lparr>info_i_pos := 3, i_nb_reads := 1\<rparr>)
         (ab_world\<lparr>fs_fds := [3 \<mapsto> \<lparr>of_mode = S_IFREG, of_data = ''abc'', of_off = 3\<rparr>,
                              4 \<mapsto> \<lparr>of_mode = S_IFREG, of_data = ''defgh'', of_off = 0\<rparr>]\<rparr>)
       = Some (Inr (5, ''defgh'', ab_access\<lparr>info_i_pos := 8, i_nb_reads := 3, filep := 1\<rparr>,
            ab_end))"
    by (simp add: Read.simps Read_step_def read_strategy_def size_check_def ab_access_def
        ab_world_def ab_end_def disk_def posix_sel px_read_def px_fstat_def Let_def fun_upd_twist)
  have sk0: "Seek posix 0 ab_access ab_world = Inr (ab_access, ab_world)"
    by (simp add: Seek_def seek_clamp_def seek_loop.simps ab_access_def ab_world_def
        posix_sel px_lseek_def disk_def fun_upd_twist)
  have p0: "\<exists>s1 w1. Seek posix 0 ab_access ab_world = Inr (s1, w1) \<and> filep s1 = 0
         \<and> (\<exists>s2 w2. Read posix 10 8 s1 w1 = Some (Inr (3, ''abc'', s2, w2))
               \<and> info_i_pos s2 = 3)"
    using Seek_Read_within_file [where s = ab_access and w = ab_world and p = 0 and n = 8
        and nb = 10, OF ok] sk0 sb
    by (auto simp: ab_access_def)
  have "\<exists>s1 w1. Seek posix 4 ab_access ab_world = Inr (s1, w1) \<and> filep s1 = 1
         \<and> (\<exists>s2 w2. Read posix 10 8 s1 w1 = Some (Inr (4, ''efgh'', s2, w2))
               \<and> info_i_pos s2 = 8)"
    using Seek_Read_within_file [where s = ab_access and w = ab_world and p = 4 and n = 8
        and nb = 10, OF ok] sk sb
    by (auto simp: ab_access_def)
  then show ?thesis using ok sb p0 r1 r2 by (simp add: ab_access_def)
qed


text \<open>
  Claim C1, evaluated on the stream of \<open>a\<close> = "abc" and \<open>b\<close> = "defgh" as \<open>Open\<close> leaves
  it. \<open>Seek\<close> repositions the descriptor of the file it selects and no other, and \<open>Read\<close>
  does not rewind the next file when it goes on to it. \<open>Seek\<close> to 5 leaves the descriptor
  of \<open>b\<close> at offset 2. After it, \<open>Seek\<close> to 3 and \<open>Read\<close> of 8 bytes return "fgh", where
  the logical stream has "defgh" from offset 3 on; and \<open>Seek\<close> to 0 followed by three
  \<open>Read\<close>s of 8 bytes returns "abc", "fgh" and the end of the stream at position 6 of 8.
\<close>

theorem Seek_Read_stale_offset:
  "stream_bytes ab_access ab_world = ''abcdefgh''
   \<and> Seek posix 5 ab_access ab_world = Inr (ab_access\<lparr>info_i_pos := 5, filep := 1\<rparr>, ab_seek5)
   \<and> Seek posix 3 (ab_access\<lparr>info_i_pos := 5, filep := 1\<rparr>) ab_seek5
       = Inr (ab_access\<lparr>info_i_pos := 3\<rparr>, ab_stale)
   \<and> Read posix 10 8 (ab_access\<lparr>info_i_pos := 3\<rparr>) ab_stale
       = Some (Inr (3, ''fgh'', ab_access\<lparr>info_i_pos := 6, i_nb_reads := 2, filep := 1\<rparr>, ab_end))
   \<and> drop 3 (stream_bytes ab_access ab_world) = ''defgh''
   \<and> Seek posix 0 (ab_access\<lparr>info_i_pos := 5, filep := 1\<rparr>) ab_seek5 = Inr (ab_access, ab_seek5)
   \<and> Read posix 10 8 ab_access ab_seek5
       = Some (Inr (3, ''abc'', ab_access\<lparr>info_i_pos := 3, i_nb_reads := 1\<rparr>, ab_stale))
   \<and> Read posix 10 8 (ab_access\<lparr>info_i_pos := 3, i_nb_reads := 1\<rparr>) ab_stale
       = Some (Inr (3, ''fgh'', ab_access\<lparr>info_i_pos := 6, i_nb_reads := 3, filep := 1\<rparr>, ab_end))
   \<and> Read posix 10 8 (ab_access\<lparr>info_i_pos := 6, i_nb_reads := 3, filep := 1\<rparr>) ab_end
       = Some (Inr (0, [], ab_access\<lparr>info_i_pos := 6, info_b_eof := True, i_nb_reads := 4,
                                filep := 1\<rparr>, ab_end))
   \<and> info_i_size ab_access = 8"
proof -
  have sb: "stream_bytes ab_access ab_world = ''abcdefgh''"
    by (simp add: stream_bytes_def fd_data_def ab_access_def ab_world_def)
  have sk: "Seek posix 5 ab_access ab_world = Inr (ab_access\<lparr>info_i_pos := 5, filep := 1\<rparr>, ab_seek5)"
    "Seek posix 3 (ab_access\<lparr>info_i_pos := 5, filep := 1\<rparr>) ab_seek5
       = Inr (ab_access\<lparr>info_i_pos := 3\<rparr>, ab_stale)"
    "Seek posix 0 (ab_access\<lparr>info_i_pos := 5, filep := 1\<rparr>) ab_seek5 = Inr (ab_access, ab_seek5)"
    by (simp_all add: Seek_def seek_clamp_def seek_loop.simps ab_access_def ab_world_def
        ab_seek5_def ab_stale_def posix_sel px_lseek_def disk_def fun_upd_twist)
  have rd: "Read posix 10 8 (ab_access\<lparr>info_i_pos := 3\<rparr>) ab_stale
       = Some (Inr (3, ''fgh'', ab_access\<lparr>info_i_pos := 6, i_nb_reads := 2, filep := 1\<rparr>, ab_end))"
    "Read posix 10 8 ab_access ab_seek5
       = Some (Inr (3, ''abc'', ab_access\<lparr>info_i_pos := 3, i_nb_reads := 1\<rparr>, ab_stale))"
    "Read posix 10 8 (ab_access\<lparr>info_i_pos := 3, i_nb_reads := 1\<rparr>) ab_stale
       = Some (Inr (3, ''fgh'', ab_access\<lparr>info_i_pos := 6, i_nb_reads := 3, filep := 1\<rparr>, ab_end))"
    "Read posix 10 8 (ab_access\<lparr>info_i_pos := 6, i_nb_reads := 3, filep := 1\<rparr>) ab_end
       = Some (Inr (0, [], ab_access\<lparr>info_i_pos := 6, info_b_eof := True, i_nb_reads := 4,
                                filep := 1\<rparr>, ab_end))"
    by (simp_all add: Read.simps Read_step_def read_strategy_def size_check_def ab_access_def
        ab_world_def ab_seek5_def ab_stale_def ab_end_def disk_def posix_sel px_read_def
        px_fstat_def Let_def fun_upd_twist)
  show ?thesis using sb sk rd by (simp add: ab_access_def)
qed


subsection \<open>Open\<close>

lemma step_fail:
  assumes "fds_fresh w"
    and "resolve w h i (if i = 0 then p else takeWhile (\<lambda>c. c \<noteq> CHR '','') fn) = None
       \<or> (\<exists>m d. resolve w h i (if i = 0 then p else takeWhile (\<lambda>c. c \<noteq> CHR '','') fn) = Some (m, d)
             \<and> (fs_nostat w (fs_next w) \<or> m = S_IFDIR))"
  shows "\<exists>fd w1 w2. open_nth posix h p i fn w = (fd, w1) \<and> probe posix fd w1 = (None, w2)
     \<and> fs_fds w2 = fs_fds w"
proof -
  have nx: "fs_next w \<noteq> - 1" "fs_fds w (fs_next w) = None"
    using assms(1) by (auto simp: fds_fresh_def)
  show ?thesis
    using assms(2) nx
    by (auto simp: open_nth_def open_file_def probe_def px_open_def px_dup_def px_fstat_def
        px_close_def posix_sel resolve_def Let_def split: option.splits if_splits)
qed

lemma step_ok:
  assumes "fds_fresh w"
    and "resolve w h i (if i = 0 then p else takeWhile (\<lambda>c. c \<noteq> CHR '','') fn) = Some (m, d)"
    and "\<not> fs_nostat w (fs_next w)" and "m \<noteq> S_IFDIR"
  shows "\<exists>w1 f. open_nth posix h p i fn w = (fs_next w, w1)
     \<and> probe posix (fs_next w) w1 = (Some \<lparr>st_mode = m, st_size = int (length d)\<rparr>, w1)
     \<and> fs_fds w1 = (fs_fds w)(fs_next w \<mapsto> f) \<and> fs_next w1 = fs_next w + 1
     \<and> fs_nodes w1 = fs_nodes w \<and> fs_nostat w1 = fs_nostat w \<and> fds_fresh w1"
proof -
  have nx: "fs_next w \<noteq> - 1" "fs_fds w (fs_next w) = None" "0 \<le> fs_next w"
    "\<And>fd. fs_next w \<le> fd \<Longrightarrow> fs_fds w fd = None"
    using assms(1) by (auto simp: fds_fresh_def)
  show ?thesis
    using assms(2,3,4) nx
    by (auto simp: open_nth_def open_file_def probe_def px_open_def px_dup_def px_fstat_def
        px_close_def posix_sel resolve_def fds_fresh_def Let_def split: option.splits if_splits)
qed

lemma opens_ok_cong:
  "fs_nodes w2 = fs_nodes w \<Longrightarrow> fs_nostat w2 = fs_nostat w \<Longrightarrow>
     opens_ok w2 h (Suc i) k names = opens_ok w h (Suc i) k names"
  by (induction names arbitrary: i k) (simp_all add: resolve_def split: option.splits)

lemma file_stats_cong:
  "fs_nodes w2 = fs_nodes w \<Longrightarrow> file_stats w2 h (Suc i) names = file_stats w h (Suc i) names"
  by (induction names arbitrary: i) (simp_all add: resolve_def split: option.splits)

lemma fold_px_close:
  "fs_fds (fold (\<lambda>i. px_close (g i)) xs w) fd = (if fd \<in> g ` set xs then None else fs_fds w fd)"
  by (induction xs arbitrary: w) (auto simp: px_close_def)

lemma map_nth_upt: "i \<le> length xs \<Longrightarrow> map ((!) xs) [0..<i] = take i xs"
proof -
  assume len: "i \<le> length xs"
  have "take i xs = take i (map ((!) xs) [0..<length xs])" by (simp add: map_nth)
  also have "\<dots> = map ((!) xs) (take i [0..<length xs])" by (rule take_map)
  also have "take i [0..<length xs] = [0..<i]" using len by simp
  finally show ?thesis by simp
qed

lemma Close_posix_take:
  assumes "i \<le> length (filev s)"
  shows "fs_fds (Close posix (s\<lparr>filec := i\<rparr>) w) fd
       = (if fd \<in> set (take i (filev s)) then None else fs_fds w fd)"
proof -
  have "(\<lambda>j. filev s ! j) ` set [0..<i] = set (map ((!) (filev s)) [0..<i])" by simp
  also have "\<dots> = set (take i (filev s))" using map_nth_upt [OF assms] by simp
  finally show ?thesis
    by (simp add: Close_def posix_sel fold_px_close)
qed

lemma Close_posix_fds:
  assumes "length (filev s) = filec s"
  shows "fs_fds (Close posix s w) fd = (if fd \<in> set (filev s) then None else fs_fds w fd)"
  using Close_posix_take [of "filec s" s w fd] assms by simp

lemma seekable_after_kind_ok: "seekable_after st b = (b \<and> kind_ok st)"
  by (auto simp: seekable_after_def kind_ok_def)

lemma open_loop_posix:
  "os = posix \<Longrightarrow> fds_fresh w \<Longrightarrow> length (filev s) = filec s \<Longrightarrow>
   (case open_loop os h p i fn s w of
      (Inl e, w') \<Rightarrow> e = VLC_EGENERIC
          \<and> \<not> opens_ok w h i (fs_next w) (loop_names p i (filec s - i) fn)
          \<and> (\<forall>fd. fs_fds w' fd = (if fd \<in> set (take i (filev s)) then None else fs_fds w fd))
    | (Inr s', w') \<Rightarrow> opens_ok w h i (fs_next w) (loop_names p i (filec s - i) fn)
          \<and> filec s' = filec s \<and> length (filev s') = filec s
          \<and> take i (filev s') = take i (filev s)
          \<and> (\<forall>fd \<in> set (drop i (filev s')). fs_next w \<le> fd)
          \<and> (\<forall>fd. fd \<notin> set (drop i (filev s')) \<longrightarrow> fs_fds w' fd = fs_fds w fd)
          \<and> info_i_size s' = info_i_size s
               + sum_list (map st_size (file_stats w h i (loop_names p i (filec s - i) fn)))
          \<and> b_seekable s' = (b_seekable s
               \<and> list_all kind_ok (file_stats w h i (loop_names p i (filec s - i) fn)))
          \<and> b_pace_control s' = b_pace_control s)"
proof (induction os h p i fn s w rule: open_loop.induct)
  case (1 os h p i fn s w)
  note os = \<open>os = posix\<close> and fresh = \<open>fds_fresh w\<close> and len = \<open>length (filev s) = filec s\<close>
  show ?case
  proof (cases "i < filec s")
    case False
    then have "open_loop os h p i fn s w = (Inr s, w)" by (subst open_loop.simps) simp
    moreover have "filec s - i = 0" "drop i (filev s) = []" using False len by simp_all
    ultimately show ?thesis using len by simp
  next
    case lt: True
    define nm where "nm = (if i = 0 then p else takeWhile (\<lambda>c. c \<noteq> CHR '','') fn)"
    define fn' where "fn' = (if i = 0 then fn else drop 1 (dropWhile (\<lambda>c. c \<noteq> CHR '','') fn))"
    have "filec s - i = Suc (filec s - Suc i)" using lt by simp
    then have names: "loop_names p i (filec s - i) fn = nm # loop_names p (Suc i) (filec s - Suc i) fn'"
      by (simp add: nm_def fn'_def)
    have ile: "i \<le> length (filev s)" using lt len by simp
    show ?thesis
    proof (cases "resolve w h i nm = None
       \<or> (\<exists>m d. resolve w h i nm = Some (m, d) \<and> (fs_nostat w (fs_next w) \<or> m = S_IFDIR))")
      case True
      from step_fail [OF fresh True [unfolded nm_def]]
      obtain fd w1 w2 where st: "open_nth posix h p i fn w = (fd, w1)"
        "probe posix fd w1 = (None, w2)" "fs_fds w2 = fs_fds w"
        by blast
      have ol: "open_loop os h p i fn s w = (Inl VLC_EGENERIC, Close posix (s\<lparr>filec := i\<rparr>) w2)"
        using lt st os by (subst open_loop.simps) simp
      have "\<not> opens_ok w h i (fs_next w) (loop_names p i (filec s - i) fn)"
        using True names by auto
      then show ?thesis
        using ol st(3) Close_posix_take [OF ile, of w2] by simp
    next
      case False
      then obtain m d where r: "resolve w h i nm = Some (m, d)" "\<not> fs_nostat w (fs_next w)"
        "m \<noteq> S_IFDIR"
        by (cases "resolve w h i nm") auto
      define st where "st = \<lparr>st_mode = m, st_size = int (length d)\<rparr>"
      from step_ok [OF fresh r(1) [unfolded nm_def] r(2,3)]
      obtain w1 f where s: "open_nth posix h p i fn w = (fs_next w, w1)"
        "probe posix (fs_next w) w1 = (Some st, w1)"
        "fs_fds w1 = (fs_fds w)(fs_next w \<mapsto> f)" "fs_next w1 = fs_next w + 1"
        "fs_nodes w1 = fs_nodes w" "fs_nostat w1 = fs_nostat w" "fds_fresh w1"
        unfolding st_def by blast
      define s1 where "s1 = s\<lparr>filev := (filev s)[i := fs_next w],
                 sizev := (sizev s)[i := st_size st],
                 info_i_size := info_i_size s + st_size st,
                 b_seekable := seekable_after st (b_seekable s)\<rparr>"
      have ol: "open_loop os h p i fn s w = open_loop os h p (Suc i) fn' s1 w1"
        using lt s(1,2) os by (subst open_loop.simps) (simp add: s1_def fn'_def)
      have len1: "length (filev s1) = filec s1" using len by (simp add: s1_def)
      have ih: "case open_loop os h p (Suc i) fn' s1 w1 of
      (Inl e, w') \<Rightarrow> e = VLC_EGENERIC
          \<and> \<not> opens_ok w1 h (Suc i) (fs_next w1) (loop_names p (Suc i) (filec s1 - Suc i) fn')
          \<and> (\<forall>fd. fs_fds w' fd = (if fd \<in> set (take (Suc i) (filev s1)) then None else fs_fds w1 fd))
    | (Inr s', w') \<Rightarrow> opens_ok w1 h (Suc i) (fs_next w1) (loop_names p (Suc i) (filec s1 - Suc i) fn')
          \<and> filec s' = filec s1 \<and> length (filev s') = filec s1
          \<and> take (Suc i) (filev s') = take (Suc i) (filev s1)
          \<and> (\<forall>fd \<in> set (drop (Suc i) (filev s')). fs_next w1 \<le> fd)
          \<and> (\<forall>fd. fd \<notin> set (drop (Suc i) (filev s')) \<longrightarrow> fs_fds w' fd = fs_fds w1 fd)
          \<and> info_i_size s' = info_i_size s1
               + sum_list (map st_size (file_stats w1 h (Suc i) (loop_names p (Suc i) (filec s1 - Suc i) fn')))
          \<and> b_seekable s' = (b_seekable s1
               \<and> list_all kind_ok (file_stats w1 h (Suc i) (loop_names p (Suc i) (filec s1 - Suc i) fn')))
          \<and> b_pace_control s' = b_pace_control s1"
      proof -
        have e1: "(fs_next w, w1) = open_nth os h p i fn w" using s(1) os by simp
        have e2: "(Some st, w1) = probe os (fs_next w) w1" using s(2) os by simp
        show ?thesis
          unfolding s1_def fn'_def
          by (rule 1(1) [OF lt e1 e2 refl os s(7) len1 [unfolded s1_def]])
      qed
      have fc1: "filec s1 = filec s" by (simp add: s1_def)
      have ok: "opens_ok w h i (fs_next w) (loop_names p i (filec s - i) fn)
          = opens_ok w1 h (Suc i) (fs_next w1) (loop_names p (Suc i) (filec s1 - Suc i) fn')"
        using names r s(4) opens_ok_cong [OF s(5,6)] fc1 by simp
      have fst: "file_stats w h i (loop_names p i (filec s - i) fn)
          = st # file_stats w1 h (Suc i) (loop_names p (Suc i) (filec s1 - Suc i) fn')"
        using names r file_stats_cong [OF s(5)] fc1 by (simp add: st_def)
      have tk: "take (Suc i) (filev s1) = take i (filev s) @ [fs_next w]"
        using lt len by (simp add: s1_def take_Suc_conv_app_nth)
      have free: "fs_fds w (fs_next w) = None" using fresh by (simp add: fds_fresh_def)
      obtain res w' where res: "open_loop os h p (Suc i) fn' s1 w1 = (res, w')"
        by (cases "open_loop os h p (Suc i) fn' s1 w1")
      show ?thesis
      proof (cases res)
        case (Inl e)
        then have e: "e = VLC_EGENERIC"
          "\<not> opens_ok w1 h (Suc i) (fs_next w1) (loop_names p (Suc i) (filec s1 - Suc i) fn')"
          "\<And>fd. fs_fds w' fd = (if fd \<in> set (take (Suc i) (filev s1)) then None else fs_fds w1 fd)"
          using ih res by simp_all
        have "fs_fds w' fd = (if fd \<in> set (take i (filev s)) then None else fs_fds w fd)" for fd
          using e(3) [of fd] tk s(3) free by auto
        then show ?thesis using ol res Inl e(1,2) ok by simp
      next
        case (Inr s')
        then have h: "opens_ok w1 h (Suc i) (fs_next w1) (loop_names p (Suc i) (filec s1 - Suc i) fn')"
          "filec s' = filec s1" "length (filev s') = filec s1"
          "take (Suc i) (filev s') = take (Suc i) (filev s1)"
          "\<And>fd. fd \<in> set (drop (Suc i) (filev s')) \<Longrightarrow> fs_next w1 \<le> fd"
          "\<And>fd. fd \<notin> set (drop (Suc i) (filev s')) \<Longrightarrow> fs_fds w' fd = fs_fds w1 fd"
          "info_i_size s' = info_i_size s1
               + sum_list (map st_size (file_stats w1 h (Suc i) (loop_names p (Suc i) (filec s1 - Suc i) fn')))"
          "b_seekable s' = (b_seekable s1
               \<and> list_all kind_ok (file_stats w1 h (Suc i) (loop_names p (Suc i) (filec s1 - Suc i) fn')))"
          "b_pace_control s' = b_pace_control s1"
          using ih res by simp_all
        have li: "i < length (filev s')" using h(2,3) fc1 lt by simp
        have "take (Suc i) (filev s') = take i (filev s') @ [filev s' ! i]"
          using li by (simp add: take_Suc_conv_app_nth)
        then have ti: "take i (filev s') = take i (filev s)" "filev s' ! i = fs_next w"
          using h(4) tk ile by auto
        have dr: "drop i (filev s') = fs_next w # drop (Suc i) (filev s')"
          using li ti(2) by (metis Cons_nth_drop_Suc)
        have a: "\<forall>fd \<in> set (drop i (filev s')). fs_next w \<le> fd"
        proof
          fix fd assume "fd \<in> set (drop i (filev s'))"
          then have "fd = fs_next w \<or> fd \<in> set (drop (Suc i) (filev s'))" using dr by simp
          then show "fs_next w \<le> fd" using h(5) [of fd] s(4) by auto
        qed
        have b: "\<forall>fd. fd \<notin> set (drop i (filev s')) \<longrightarrow> fs_fds w' fd = fs_fds w fd"
          using dr h(6) s(3) by auto
        have c: "info_i_size s' = info_i_size s
               + sum_list (map st_size (file_stats w h i (loop_names p i (filec s - i) fn)))"
          using h(7) fst by (simp add: s1_def)
        have d: "b_seekable s' = (b_seekable s
               \<and> list_all kind_ok (file_stats w h i (loop_names p i (filec s - i) fn)))"
          using h(8) fst by (auto simp: s1_def seekable_after_kind_ok)
        have e: "b_pace_control s' = b_pace_control s" using h(9) by (simp add: s1_def)
        show ?thesis
          using ol res Inr ok h(1,2,3) fc1 ti(1) a b c d e by simp
      qed
    qed
  qed
qed

lemma length_loop_names [simp]: "length (loop_names p i k fn) = k"
  by (induction k arbitrary: i fn) simp_all

lemma opens_ok_iff:
  "opens_ok w h i k names =
     (\<forall>j<length names. \<exists>m d. resolve w h (i + j) (names ! j) = Some (m, d)
          \<and> \<not> fs_nostat w (k + int j) \<and> m \<noteq> S_IFDIR)"
proof (induction names arbitrary: i k)
  case Nil
  then show ?case by simp
next
  case (Cons nm names)
  have "(\<forall>j<length (nm # names). \<exists>m d. resolve w h (i + j) ((nm # names) ! j) = Some (m, d)
          \<and> \<not> fs_nostat w (k + int j) \<and> m \<noteq> S_IFDIR)
     = ((\<exists>m d. resolve w h i nm = Some (m, d) \<and> \<not> fs_nostat w k \<and> m \<noteq> S_IFDIR)
        \<and> (\<forall>j<length names. \<exists>m d. resolve w h (Suc i + j) (names ! j) = Some (m, d)
          \<and> \<not> fs_nostat w (k + 1 + int j) \<and> m \<noteq> S_IFDIR))"
    by (simp add: All_less_Suc2 add.assoc)
  then show ?case
    using Cons.IH [of "Suc i" "k + 1"]
    by (cases "resolve w h i nm") auto
qed

lemma length_file_stats:
  "opens_ok w h i k names \<Longrightarrow> length (file_stats w h i names) = length names"
  by (induction names arbitrary: i k) (auto split: option.splits)


lemma init_access_facts:
  "b_seekable (init_access a) = (\<not> strcasecmp_eq a ''stream'' \<and> \<not> strcasecmp_eq a ''kfir'')"
  "info_i_size (init_access a) = 0"
  by (simp_all add: init_access_def)

lemma Open_posix_cases:
  fixes w :: fsys and h a p cat :: string
  assumes "fds_fresh w"
  defines "names \<equiv> loop_names p 0 (file_count cat) cat"
  defines "stats \<equiv> file_stats w h 0 names"
  defines "std \<equiv> \<not> strcasecmp_eq a ''stream'' \<and> \<not> strcasecmp_eq a ''kfir''"
  shows "(\<not> opens_ok w h 0 (fs_next w) names
            \<and> fst (Open posix h a p (Some cat) w) = Inl VLC_EGENERIC
            \<and> fs_fds (snd (Open posix h a p (Some cat) w)) = fs_fds w)
       \<or> (opens_ok w h 0 (fs_next w) names \<and> std \<and> list_all kind_ok stats
            \<and> sum_list (map st_size stats) = 0
            \<and> fst (Open posix h a p (Some cat) w) = Inl VLC_EGENERIC
            \<and> fs_fds (snd (Open posix h a p (Some cat) w)) = fs_fds w)
       \<or> (opens_ok w h 0 (fs_next w) names
            \<and> \<not> (std \<and> list_all kind_ok stats \<and> sum_list (map st_size stats) = 0)
            \<and> (\<exists>s. fst (Open posix h a p (Some cat) w) = Inr s
                  \<and> filec s = file_count cat
                  \<and> b_seekable s = (std \<and> list_all kind_ok stats)
                  \<and> info_i_size s = sum_list (map st_size stats)))"
proof -
  define s0 where "s0 = (init_access a)\<lparr>filec := file_count cat, filev := replicate (file_count cat) 0,
                                            sizev := replicate (file_count cat) 0\<rparr>"
  have len: "length (filev s0) = filec s0" by (simp add: s0_def)
  have s0: "filec s0 = file_count cat" "b_seekable s0 = std" "info_i_size s0 = 0"
    by (simp_all add: s0_def init_access_facts std_def)
  have op: "Open posix h a p (Some cat) w =
      (case open_loop posix h p 0 cat s0 w of
         (Inl e, w1) \<Rightarrow> (Inl e, w1)
       | (Inr s1, w1) \<Rightarrow>
           if b_seekable s1 \<and> info_i_size s1 = 0
           then (Inl VLC_EGENERIC, Close posix s1 (os_log posix (Msg_Err ''file is empty, aborting'') w1))
           else (Inr s1, w1))"
    by (simp add: Open_def Let_def s0_def file_count_def)
  note lp = open_loop_posix [OF refl assms(1) len, where h = h and p = p and i = 0 and fn = cat]
  obtain res w1 where res: "open_loop posix h p 0 cat s0 w = (res, w1)"
    by (cases "open_loop posix h p 0 cat s0 w")
  show ?thesis
  proof (cases res)
    case (Inl e)
    then have "e = VLC_EGENERIC" "\<not> opens_ok w h 0 (fs_next w) names" "\<And>fd. fs_fds w1 fd = fs_fds w fd"
      using lp res s0(1) by (simp_all add: names_def)
    then have "\<not> opens_ok w h 0 (fs_next w) names
            \<and> fst (Open posix h a p (Some cat) w) = Inl VLC_EGENERIC
            \<and> fs_fds (snd (Open posix h a p (Some cat) w)) = fs_fds w"
      using op res Inl by (auto intro: ext)
    then show ?thesis by blast
  next
    case (Inr s1)
    then have h: "opens_ok w h 0 (fs_next w) names" "filec s1 = file_count cat"
      "length (filev s1) = filec s1"
      "\<And>fd. fd \<in> set (filev s1) \<Longrightarrow> fs_next w \<le> fd"
      "\<And>fd. fd \<notin> set (filev s1) \<Longrightarrow> fs_fds w1 fd = fs_fds w fd"
      "info_i_size s1 = sum_list (map st_size stats)"
      "b_seekable s1 = (std \<and> list_all kind_ok stats)"
      using lp res s0 by (simp_all add: names_def stats_def)
    show ?thesis
    proof (cases "std \<and> list_all kind_ok stats \<and> sum_list (map st_size stats) = 0")
      case True
      then have o: "Open posix h a p (Some cat) w
          = (Inl VLC_EGENERIC, Close posix s1 (os_log posix (Msg_Err ''file is empty, aborting'') w1))"
        using op res Inr h(6,7) by simp
      have "fs_fds (Close posix s1 (os_log posix (Msg_Err ''file is empty, aborting'') w1)) fd
          = fs_fds w fd" for fd
      proof (cases "fd \<in> set (filev s1)")
        case True
        then have "fs_fds w fd = None" using h(4) [of fd] assms(1) by (simp add: fds_fresh_def)
        then show ?thesis using True Close_posix_fds [OF h(3)] by simp
      next
        case False
        then show ?thesis using h(5) [of fd] Close_posix_fds [OF h(3)] by (simp add: posix_sel)
      qed
      then have "fs_fds (snd (Open posix h a p (Some cat) w)) = fs_fds w"
        using o by (auto intro: ext)
      then show ?thesis using True h(1) o by simp
    next
      case False
      then have "Open posix h a p (Some cat) w = (Inr s1, w1)"
        using op res Inr h(6,7) by auto
      then show ?thesis using False h(1,2,6,7) by simp
    qed
  qed
qed

lemma bad_file_iff:
  "(r = None \<or> (\<exists>d. r = Some (S_IFDIR, d)) \<or> n)
     = (\<not> (\<exists>m d. r = Some (m, d) \<and> \<not> n \<and> m \<noteq> S_IFDIR))"
  by (cases r) auto

lemma fresh_disk: "fds_fresh disk" "fds_fresh nostat_disk"
  by (simp_all add: fds_fresh_def disk_def nostat_disk_def)

lemma names_ab: "loop_names ''a'' 0 (file_count ''b'') ''b'' = [''a'', ''b'']"
  by (simp add: file_count_def numeral_2_eq_2)

lemma names_single: "loop_names p 0 (file_count []) [] = [p]"
  by (simp add: file_count_def)

lemma stats_ab: "file_stats disk ''/home'' 0 [''a'', ''b'']
    = [\<lparr>st_mode = S_IFREG, st_size = 3\<rparr>, \<lparr>st_mode = S_IFREG, st_size = 5\<rparr>]"
  by (simp add: resolve_def expand_path_def disk_def)


text \<open>
  Claim C4, on the file system \<open>posix\<close>. When \<open>Open\<close> succeeds, the stream is marked
  seekable if and only if the access is neither \<open>stream\<close> nor \<open>kfir\<close> and every file of
  the set is a regular file, a block device, or a character device whose size is not 0;
  \<open>file_stats\<close> lists the \<open>stat\<close> of every file of the set. The queries
  \<open>ACCESS_CAN_SEEK\<close> and \<open>ACCESS_CAN_FASTSEEK\<close> both answer with that flag.
\<close>

theorem Open_seekable_iff:
  fixes w :: fsys and h a p cat :: string
  assumes "fds_fresh w" and "Open posix h a p (Some cat) w = (Inr s, w')"
  shows "b_seekable s =
           (\<not> strcasecmp_eq a ''stream'' \<and> \<not> strcasecmp_eq a ''kfir''
            \<and> list_all kind_ok (file_stats w h 0 (loop_names p 0 (file_count cat) cat)))
       \<and> length (file_stats w h 0 (loop_names p 0 (file_count cat) cat)) = filec s
       \<and> Control os c s ACCESS_CAN_SEEK v = (Inr (Ans_bool (b_seekable s)), v)
       \<and> Control os c s ACCESS_CAN_FASTSEEK v = (Inr (Ans_bool (b_seekable s)), v)"
proof -
  have "opens_ok w h 0 (fs_next w) (loop_names p 0 (file_count cat) cat)
      \<and> filec s = file_count cat
      \<and> b_seekable s = (\<not> strcasecmp_eq a ''stream'' \<and> \<not> strcasecmp_eq a ''kfir''
            \<and> list_all kind_ok (file_stats w h 0 (loop_names p 0 (file_count cat) cat)))"
    using Open_posix_cases [OF assms(1), of h p cat a] assms(2) by auto
  then show ?thesis
    using length_file_stats [of w h 0 "fs_next w" "loop_names p 0 (file_count cat) cat"]
    by (simp add: Control_def)
qed

theorem Open_seekable_iff_witness:
  "fds_fresh disk
   \<and> Open posix ''/home'' ''file'' ''a'' (Some ''b'') disk = (Inr ab_access, ab_world)
   \<and> file_stats disk ''/home'' 0 (loop_names ''a'' 0 (file_count ''b'') ''b'')
       = [\<lparr>st_mode = S_IFREG, st_size = 3\<rparr>, \<lparr>st_mode = S_IFREG, st_size = 5\<rparr>]
   \<and> b_seekable ab_access
   \<and> Control posix 300 ab_access ACCESS_CAN_SEEK ab_world = (Inr (Ans_bool True), ab_world)
   \<and> Control posix 300 ab_access ACCESS_CAN_FASTSEEK ab_world = (Inr (Ans_bool True), ab_world)"
  using Open_seekable_iff [OF fresh_disk(1) Open_ab, where os = posix and c = 300 and v = ab_world]
    fresh_disk(1) Open_ab names_ab stats_ab
  by (simp add: kind_ok_def)


text \<open>
  Claim C5, as amended, on the file system \<open>posix\<close>, when the variable \<open>file-cat\<close> has a
  value. \<open>Open\<close> fails with \<open>VLC_EGENERIC\<close> exactly when one of the files cannot be
  opened, or is a directory, or \<open>fstat\<close> fails on its descriptor, or else when the stream
  is seekable and the sizes add up to 0. It does not fail with another error. When it fails,
  the descriptor table is the one before the call: every descriptor the call has opened,
  that of a directory included, has been closed.
\<close>

theorem Open_fails_iff:
  fixes w :: fsys and h a p cat :: string
  assumes "fds_fresh w"
  defines "names \<equiv> loop_names p 0 (file_count cat) cat"
  defines "stats \<equiv> file_stats w h 0 names"
  shows "(fst (Open posix h a p (Some cat) w) = Inl VLC_EGENERIC) =
           ((\<exists>j<file_count cat. resolve w h j (names ! j) = None
                \<or> (\<exists>d. resolve w h j (names ! j) = Some (S_IFDIR, d))
                \<or> fs_nostat w (fs_next w + int j))
            \<or> (\<not> strcasecmp_eq a ''stream'' \<and> \<not> strcasecmp_eq a ''kfir''
                \<and> list_all kind_ok stats \<and> sum_list (map st_size stats) = 0))
       \<and> fst (Open posix h a p (Some cat) w) \<noteq> Inl VLC_ENOMEM
       \<and> (fst (Open posix h a p (Some cat) w) = Inl VLC_EGENERIC \<longrightarrow>
            fs_fds (snd (Open posix h a p (Some cat) w)) = fs_fds w)"
proof -
  let ?bad = "\<exists>j<file_count cat. resolve w h j (names ! j) = None
                \<or> (\<exists>d. resolve w h j (names ! j) = Some (S_IFDIR, d))
                \<or> fs_nostat w (fs_next w + int j)"
  let ?empty = "\<not> strcasecmp_eq a ''stream'' \<and> \<not> strcasecmp_eq a ''kfir''
                \<and> list_all kind_ok stats \<and> sum_list (map st_size stats) = 0"
  let ?r = "Open posix h a p (Some cat) w"
  have bad: "?bad = (\<not> opens_ok w h 0 (fs_next w) names)"
    unfolding opens_ok_iff bad_file_iff by (simp add: names_def)
  from Open_posix_cases [OF assms(1), of h p cat a]
  have cases: "(\<not> opens_ok w h 0 (fs_next w) names \<and> fst ?r = Inl VLC_EGENERIC
            \<and> fs_fds (snd ?r) = fs_fds w)
       \<or> (opens_ok w h 0 (fs_next w) names \<and> ?empty \<and> fst ?r = Inl VLC_EGENERIC
            \<and> fs_fds (snd ?r) = fs_fds w)
       \<or> (opens_ok w h 0 (fs_next w) names \<and> \<not> ?empty \<and> (\<exists>s. fst ?r = Inr s))"
    unfolding names_def stats_def by blast
  then consider
      (a) "\<not> opens_ok w h 0 (fs_next w) names" "fst ?r = Inl VLC_EGENERIC" "fs_fds (snd ?r) = fs_fds w"
    | (b) "opens_ok w h 0 (fs_next w) names" "?empty" "fst ?r = Inl VLC_EGENERIC" "fs_fds (snd ?r) = fs_fds w"
    | (c) s where "opens_ok w h 0 (fs_next w) names" "\<not> ?empty" "fst ?r = Inr s"
    by blast
  then show ?thesis
  proof cases
    case a
    then show ?thesis unfolding bad by simp
  next
    case b
    then show ?thesis unfolding bad by simp
  next
    case c
    then show ?thesis unfolding bad by simp
  qed
qed

theorem Open_fails_iff_witness:
  "fds_fresh disk
   \<and> resolve disk ''/home'' 0 ''d'' = Some (S_IFDIR, [])
   \<and> fst (Open posix ''/home'' ''file'' ''d'' (Some []) disk) = Inl VLC_EGENERIC
   \<and> fs_fds (snd (Open posix ''/home'' ''file'' ''d'' (Some []) disk)) = fs_fds disk
   \<and> resolve disk ''/home'' 0 ''zz'' = None
   \<and> fst (Open posix ''/home'' ''file'' ''zz'' (Some []) disk) = Inl VLC_EGENERIC
   \<and> file_stats disk ''/home'' 0 [''e''] = [\<lparr>st_mode = S_IFREG, st_size = 0\<rparr>]
   \<and> fst (Open posix ''/home'' ''file'' ''e'' (Some []) disk) = Inl VLC_EGENERIC
   \<and> fs_fds (snd (Open posix ''/home'' ''file'' ''e'' (Some []) disk)) = fs_fds disk
   \<and> fst (Open posix ''/home'' ''file'' ''a'' (Some ''b'') disk) = Inr ab_access"
proof -
  have r: "resolve disk ''/home'' 0 ''d'' = Some (S_IFDIR, [])"
    "resolve disk ''/home'' 0 ''zz'' = None"
    "resolve disk ''/home'' 0 ''e'' = Some (S_IFREG, [])"
    by (simp_all add: resolve_def expand_path_def disk_def)
  have st: "file_stats disk ''/home'' 0 [''e''] = [\<lparr>st_mode = S_IFREG, st_size = 0\<rparr>]"
    using r(3) by simp
  have d: "fst (Open posix ''/home'' ''file'' ''d'' (Some []) disk) = Inl VLC_EGENERIC
      \<and> fs_fds (snd (Open posix ''/home'' ''file'' ''d'' (Some []) disk)) = fs_fds disk"
    using Open_fails_iff [OF fresh_disk(1), of "''/home''" "''file''" "''d''" "[]"] r(1)
    by (simp add: file_count_def)
  have z: "fst (Open posix ''/home'' ''file'' ''zz'' (Some []) disk) = Inl VLC_EGENERIC"
    using Open_fails_iff [OF fresh_disk(1), of "''/home''" "''file''" "''zz''" "[]"] r(2)
    by (simp add: file_count_def)
  have e: "fst (Open posix ''/home'' ''file'' ''e'' (Some []) disk) = Inl VLC_EGENERIC
      \<and> fs_fds (snd (Open posix ''/home'' ''file'' ''e'' (Some []) disk)) = fs_fds disk"
    using Open_fails_iff [OF fresh_disk(1), of "''/home''" "''file''" "''e''" "[]"] st
    by (simp add: file_count_def kind_ok_def)
  show ?thesis using fresh_disk(1) r st d z e Open_ab by simp
qed


text \<open>
  Claim C5 as it is stated fails when \<open>fstat\<close> fails: the file \<open>a\<close> is opened (as
  descriptor 3), it is a regular file of three bytes, and \<open>Open\<close> fails with
  \<open>VLC_EGENERIC\<close>.
\<close>

theorem Open_fails_iff_counterexample:
  "fst (Open posix ''/home'' ''file'' ''a'' (Some []) nostat_disk) = Inl VLC_EGENERIC
   \<and> fst (open_file posix ''/home'' ''a'' nostat_disk) = 3
   \<and> resolve nostat_disk ''/home'' 0 ''a'' = Some (S_IFREG, ''abc'')
   \<and> length ''abc'' = 3"
  by (simp add: Open_def init_access_def open_loop.simps open_nth_def open_file_def
      expand_path_def probe_def posix_sel px_open_def px_fstat_def px_close_def Close_def
      resolve_def nostat_disk_def disk_def Let_def)


end
